theory Spec2Isabelle
  imports Main "HOL-Library.Word"
begin

section \<open>JavaScript strings\<close>

text \<open>
  A JavaScript string is a sequence of 16-bit code units; \<open>length\<close>, \<open>lastIndexOf\<close>,
  \<open>substring\<close> and \<open>trim\<close> all work on code units. \<open>js\<close> turns an ASCII literal into
  such a string.
\<close>

type_synonym jsstring = "16 word list"

definition js :: "string \<Rightarrow> jsstring" where
  "js s = map (\<lambda>c. word_of_nat (of_char c)) s"

text \<open>
  \<open>String.prototype.trim\<close> removes WhiteSpace and LineTerminator code points from both
  ends: TAB, LF, VT, FF, CR, SPACE, NBSP, U+1680, U+2000..U+200A, U+2028, U+2029, U+202F,
  U+205F, U+3000 and U+FEFF.
\<close>

definition isWhiteSpace :: "16 word \<Rightarrow> bool" where
  "isWhiteSpace c \<longleftrightarrow>
     c = 0x9 \<or> c = 0xA \<or> c = 0xB \<or> c = 0xC \<or> c = 0xD \<or> c = 0x20 \<or> c = 0xA0 \<or>
     c = 0x1680 \<or> (0x2000 \<le> c \<and> c \<le> 0x200A) \<or> c = 0x2028 \<or> c = 0x2029 \<or>
     c = 0x202F \<or> c = 0x205F \<or> c = 0x3000 \<or> c = 0xFEFF"

definition trim :: "jsstring \<Rightarrow> jsstring" where
  "trim s = rev (dropWhile isWhiteSpace (rev (dropWhile isWhiteSpace s)))"

text \<open>
  \<open>s.substring(start, end)\<close>: both arguments are clamped to \<open>[0, length]\<close> and swapped when
  \<open>start > end\<close>. \<open>s.substring(start)\<close> takes \<open>end = length\<close>.
\<close>

definition substring :: "jsstring \<Rightarrow> int \<Rightarrow> int \<Rightarrow> jsstring" where
  "substring s start end =
     (let len = int (length s);
          finalStart = min (max start 0) len;
          finalEnd = min (max end 0) len;
          from = min finalStart finalEnd;
          to = max finalStart finalEnd
      in take (nat (to - from)) (drop (nat from) s))"

definition substringFrom :: "jsstring \<Rightarrow> int \<Rightarrow> jsstring" where
  "substringFrom s start = substring s start (int (length s))"

text \<open>
  \<open>s.lastIndexOf(searchString, position)\<close>: the search starts at
  \<open>min (max position 0) (length s - length searchString)\<close> and walks down to index 0;
  the result is the first index met where \<open>searchString\<close> occurs, or \<open>-1\<close>.
\<close>

definition occursAt :: "jsstring \<Rightarrow> jsstring \<Rightarrow> nat \<Rightarrow> bool" where
  "occursAt s searchString i \<longleftrightarrow> take (length searchString) (drop i s) = searchString"

fun lastIndexOfDown :: "jsstring \<Rightarrow> jsstring \<Rightarrow> nat \<Rightarrow> int" where
  "lastIndexOfDown s searchString 0 = (if occursAt s searchString 0 then 0 else - 1)"
| "lastIndexOfDown s searchString (Suc i) =
     (if occursAt s searchString (Suc i) then int (Suc i)
      else lastIndexOfDown s searchString i)"

definition lastIndexOf :: "jsstring \<Rightarrow> jsstring \<Rightarrow> int \<Rightarrow> int" where
  "lastIndexOf s searchString position =
     (let len = int (length s); searchLen = int (length searchString)
      in if len < searchLen then - 1
         else lastIndexOfDown s searchString (nat (min (max position 0) (len - searchLen))))"

section \<open>chunkText\<close>

text \<open>The array \<open>['. ', '! ', '? ', '.\n', '!\n', '?\n']\<close> of \<open>chunkText\<close>.\<close>

definition sentenceEnders :: "jsstring list" where
  "sentenceEnders =
     [[0x2E, 0x20], [0x21, 0x20], [0x3F, 0x20], [0x2E, 0xA], [0x21, 0xA], [0x3F, 0xA]]"

text \<open>
  The \<open>for (const ender of sentenceEnders)\<close> loop, with \<open>cutIndex\<close> threaded through:
  \<open>idx\<close> is compared with the current \<open>cutIndex\<close>, and \<open>cutIndex\<close> becomes
  \<open>idx + ender.length\<close>.
\<close>

fun scanEnders :: "jsstring \<Rightarrow> int \<Rightarrow> jsstring list \<Rightarrow> int \<Rightarrow> int" where
  "scanEnders remaining maxSize [] cutIndex = cutIndex"
| "scanEnders remaining maxSize (ender # enders) cutIndex =
     (let idx = lastIndexOf remaining ender maxSize
      in scanEnders remaining maxSize enders
           (if idx > cutIndex then idx + int (length ender) else cutIndex))"

text \<open>The value of \<open>cutIndex\<close> at the two \<open>substring\<close> calls of one loop iteration.\<close>

definition findCut :: "jsstring \<Rightarrow> int \<Rightarrow> int" where
  "findCut remaining maxSize =
     (let cutIndex = scanEnders remaining maxSize sentenceEnders (- 1);
          cutIndex = (if cutIndex = - 1 then lastIndexOf remaining [0x20] maxSize else cutIndex);
          cutIndex = (if cutIndex = - 1 \<or> cutIndex = 0 then maxSize else cutIndex)
      in cutIndex)"

text \<open>
  The \<open>while (remaining.length > 0)\<close> loop. For \<open>maxSize \<le> 0\<close> the source loop need not
  end, so the loop is a partial function: \<open>None\<close> stands for a loop that never returns.
\<close>

partial_function (option) chunkLoop :: "jsstring \<Rightarrow> int \<Rightarrow> jsstring list \<Rightarrow> jsstring list option" where
  "chunkLoop remaining maxSize chunks =
     (if length remaining > 0 then
        (if int (length remaining) \<le> maxSize then Some (chunks @ [remaining])
         else chunkLoop (trim (substringFrom remaining (findCut remaining maxSize))) maxSize
                (chunks @ [trim (substring remaining 0 (findCut remaining maxSize))]))
      else Some chunks)"

declare chunkLoop.simps [code]

definition chunkText :: "jsstring \<Rightarrow> int \<Rightarrow> jsstring list option" where
  "chunkText text maxSize = chunkLoop (trim text) maxSize []"

section \<open>Errors, configuration and the observable trace\<close>

text \<open>
  The exceptions that leave a \<open>try\<close> block of the export code: the \<open>URIError\<close> that
  \<open>encodeURIComponent\<close> throws on an unpaired surrogate, and the \<open>Error\<close> that
  \<open>handleLongExport\<close> throws for the chunk with the given number.
\<close>

datatype error = URIError | ChunkFailed nat

text \<open>The static \<open>VoxFreeApp.CONFIG\<close> object, passed to each function that reads it.\<close>

record config =
  MAX_TEXT_LENGTH :: nat
  CHUNK_SIZE :: int
  DEBOUNCE_DELAY :: nat
  RETRY_ATTEMPTS :: nat
  RETRY_DELAY :: nat
  PROXY_URLS :: "jsstring list"
  TTS_BASE_URL :: jsstring
  STORAGE_KEY :: jsstring

definition CONFIG :: config where
  "CONFIG = \<lparr> MAX_TEXT_LENGTH = 5000, CHUNK_SIZE = 200, DEBOUNCE_DELAY = 300,
     RETRY_ATTEMPTS = 2, RETRY_DELAY = 1000,
     PROXY_URLS = [js ''https://api.allorigins.win/raw?url='',
                   js ''https://corsproxy.io/?'',
                   js ''https://api.codetabs.com/v1/proxy?quest=''],
     TTS_BASE_URL = js ''https://translate.google.com/translate_tts'',
     STORAGE_KEY = js ''voxfree_preferences'' \<rparr>"

type_synonym blob = "8 word list"

text \<open>
  Status texts of \<open>updateStatus\<close> and messages of \<open>showError\<close> used by the export code:
  \<open>Preparing\<close> is 'Preparing download...', \<open>ProcessingLong\<close> is 'Processing long text...',
  \<open>ProcessingChunk i n\<close> is 'Processing chunk i/n...', \<open>DownloadComplete\<close> is
  'Download Complete', \<open>StatusError\<close> is 'Error'; \<open>InvalidText\<close> is 'Please enter valid
  text to download.', \<open>TooLong\<close> is 'Text exceeds maximum length of ... characters.',
  \<open>DownloadFailed\<close> is 'Download failed. Please try again or use shorter text.',
  \<open>ManualFallback\<close> is 'Unable to download automatically due to network restrictions. The
  audio has been opened in a new tab where you can play and save it manually.' and
  \<open>LongFailed\<close> is 'Failed to process long text. Try shorter text or check your connection.'.
\<close>

datatype status = Preparing | ProcessingLong | ProcessingChunk nat nat | DownloadComplete
  | StatusError

datatype notice = InvalidText | TooLong | DownloadFailed | ManualFallback | LongFailed

text \<open>
  What one export call does to the outside world, in order: \<open>fetch(url)\<close>, \<open>delay(ms)\<close>,
  \<open>window.open(url)\<close>, \<open>updateStatus\<close>, the notification of \<open>showError\<close>, and
  \<open>downloadBlob(blob, ext)\<close>. Console output is not part of the trace.
\<close>

datatype event = Fetch jsstring | Delay nat | WindowOpen jsstring | UpdateStatus status bool
  | Notify notice | SaveFile blob jsstring

text \<open>
  What \<open>await fetch(proxyUrl, ...)\<close> gives: a rejection with a network error, a rejection
  with \<open>AbortError\<close> (the 10 second timer aborted the request), or a response with its
  status and body (\<open>None\<close> when reading the body with \<open>response.blob()\<close> rejects). The
  transport decides from the trace so far and the requested URL.
\<close>

datatype outcome = NetworkError | AbortError | Response nat "blob option"

type_synonym transport = "event list \<Rightarrow> jsstring \<Rightarrow> outcome"

text \<open>
  The timer around \<open>fetch\<close>: \<open>setTimeout(() => controller.abort(), 10000)\<close> before the
  call and \<open>clearTimeout(timeoutId)\<close> right after \<open>await fetch(...)\<close>. What the network
  does with one request is a \<open>reply\<close>: \<open>Rejects ms\<close>, a network error after \<open>ms\<close>
  milliseconds, or \<open>Resolves ms status bodyMs body\<close>, a response whose status arrives after
  \<open>ms\<close> milliseconds and whose body takes \<open>bodyMs\<close> further milliseconds to read
  (\<open>None\<close> when reading it fails). A fetch that has not settled when the timer fires after
  10000 milliseconds is aborted and rejects with \<open>AbortError\<close>; once \<open>fetch\<close> has
  resolved the timer is cleared, so \<open>response.blob()\<close> is awaited without a limit.
\<close>

datatype reply = Rejects nat | Resolves nat nat nat "blob option"

type_synonym network = "event list \<Rightarrow> jsstring \<Rightarrow> reply"

definition awaitFetch :: "network \<Rightarrow> transport" where
  "awaitFetch net tr url =
     (case net tr url of
        Rejects ms \<Rightarrow> if ms < 10000 then NetworkError else AbortError
      | Resolves ms status bodyMs body \<Rightarrow>
          if ms < 10000 then Response status body else AbortError)"

section \<open>encodeURIComponent\<close>

definition isUnescaped :: "16 word \<Rightarrow> bool" where
  "isUnescaped c \<longleftrightarrow>
     (0x41 \<le> c \<and> c \<le> 0x5A) \<or> (0x61 \<le> c \<and> c \<le> 0x7A) \<or> (0x30 \<le> c \<and> c \<le> 0x39) \<or>
     c = 0x2D \<or> c = 0x5F \<or> c = 0x2E \<or> c = 0x21 \<or> c = 0x7E \<or> c = 0x2A \<or> c = 0x27 \<or>
     c = 0x28 \<or> c = 0x29"

definition isLeadSurrogate :: "16 word \<Rightarrow> bool" where
  "isLeadSurrogate c \<longleftrightarrow> 0xD800 \<le> c \<and> c \<le> 0xDBFF"

definition isTrailSurrogate :: "16 word \<Rightarrow> bool" where
  "isTrailSurrogate c \<longleftrightarrow> 0xDC00 \<le> c \<and> c \<le> 0xDFFF"

definition pairToCodePoint :: "16 word \<Rightarrow> 16 word \<Rightarrow> nat" where
  "pairToCodePoint lead trail = (unat lead - 0xD800) * 0x400 + (unat trail - 0xDC00) + 0x10000"

definition utf8 :: "nat \<Rightarrow> nat list" where
  "utf8 cp =
     (if cp < 0x80 then [cp]
      else if cp < 0x800 then [0xC0 + cp div 64, 0x80 + cp mod 64]
      else if cp < 0x10000 then [0xE0 + cp div 4096, 0x80 + (cp div 64) mod 64, 0x80 + cp mod 64]
      else [0xF0 + cp div 262144, 0x80 + (cp div 4096) mod 64, 0x80 + (cp div 64) mod 64,
            0x80 + cp mod 64])"

definition hexDigit :: "nat \<Rightarrow> 16 word" where
  "hexDigit d = (if d < 10 then word_of_nat (0x30 + d) else word_of_nat (0x41 + (d - 10)))"

definition percentEncode :: "nat list \<Rightarrow> jsstring" where
  "percentEncode octets = concat (map (\<lambda>b. [0x25, hexDigit (b div 16), hexDigit (b mod 16)]) octets)"

definition prepend :: "jsstring \<Rightarrow> error + jsstring \<Rightarrow> error + jsstring" where
  "prepend r rest = (case rest of Inl e \<Rightarrow> Inl e | Inr s \<Rightarrow> Inr (r @ s))"

text \<open>
  \<open>encodeURIComponent\<close>: unescaped code units are copied, every other code point is written
  as the percent-encoded octets of its UTF-8 form, and an unpaired surrogate throws
  \<open>URIError\<close>.
\<close>

fun encodeURIComponent :: "jsstring \<Rightarrow> error + jsstring" where
  "encodeURIComponent [] = Inr []"
| "encodeURIComponent [c] =
     (if isUnescaped c then Inr [c]
      else if isTrailSurrogate c \<or> isLeadSurrogate c then Inl URIError
      else Inr (percentEncode (utf8 (unat c))))"
| "encodeURIComponent (c # d # ds) =
     (if isUnescaped c then prepend [c] (encodeURIComponent (d # ds))
      else if isTrailSurrogate c then Inl URIError
      else if isLeadSurrogate c then
        (if isTrailSurrogate d
         then prepend (percentEncode (utf8 (pairToCodePoint c d))) (encodeURIComponent ds)
         else Inl URIError)
      else prepend (percentEncode (utf8 (unat c))) (encodeURIComponent (d # ds)))"

section \<open>fetchAudioWithRetry\<close>

text \<open>The template literal that builds \<open>googleUrl\<close>, in the \<open>try\<close> block and in the fallback.\<close>

definition googleUrl :: "config \<Rightarrow> jsstring \<Rightarrow> jsstring \<Rightarrow> error + jsstring" where
  "googleUrl cfg text lang =
     (case encodeURIComponent lang of
        Inl e \<Rightarrow> Inl e
      | Inr encLang \<Rightarrow>
         (case encodeURIComponent text of
            Inl e \<Rightarrow> Inl e
          | Inr encText \<Rightarrow>
              Inr (TTS_BASE_URL cfg @ js ''?ie=UTF-8&tl='' @ encLang
                     @ js ''&client=tw-ob&q='' @ encText)))"

text \<open>\<open>PROXY_URLS[proxyIndex]\<close> inside a template literal: out of range it reads 'undefined'.\<close>

definition currentProxy :: "config \<Rightarrow> nat \<Rightarrow> jsstring" where
  "currentProxy cfg proxyIndex =
     (if proxyIndex < length (PROXY_URLS cfg) then PROXY_URLS cfg ! proxyIndex
      else js ''undefined'')"

text \<open>
  The \<open>try\<close> block of \<open>fetchAudioWithRetry\<close>: \<open>Some blob\<close> when it returns the blob,
  \<open>None\<close> when anything in it throws (an encoding error, a rejected fetch, a response that
  is not ok, a body that cannot be read, an empty blob); every such throw lands in the same
  \<open>catch\<close>.
\<close>

definition tryFetch ::
  "config \<Rightarrow> transport \<Rightarrow> jsstring \<Rightarrow> jsstring \<Rightarrow> nat \<Rightarrow> event list \<Rightarrow> blob option \<times> event list" where
  "tryFetch cfg tp text lang proxyIndex tr =
     (case googleUrl cfg text lang of
        Inl e \<Rightarrow> (None, tr)
      | Inr g \<Rightarrow>
         (case encodeURIComponent g of
            Inl e \<Rightarrow> (None, tr)
          | Inr eg \<Rightarrow>
             (let proxyUrl = currentProxy cfg proxyIndex @ eg;
                  tr1 = tr @ [Fetch proxyUrl]
              in case tp tr proxyUrl of
                   NetworkError \<Rightarrow> (None, tr1)
                 | AbortError \<Rightarrow> (None, tr1)
                 | Response status body \<Rightarrow>
                     if \<not> (200 \<le> status \<and> status \<le> 299) then (None, tr1)
                     else (case body of
                             None \<Rightarrow> (None, tr1)
                           | Some blob \<Rightarrow> if length blob = 0 then (None, tr1) else (Some blob, tr1)))))"

text \<open>\<open>showError(message)\<close>: the status becomes 'Error' and the notification is shown.\<close>

definition showError :: "notice \<Rightarrow> event list" where
  "showError message = [UpdateStatus StatusError False, Notify message]"

text \<open>
  \<open>fetchAudioWithRetry(text, lang, attempt, proxyIndex)\<close>, from a trace to the result and
  the extended trace. \<open>Inr (Some blob)\<close> is the returned blob, \<open>Inr None\<close> is \<open>null\<close>, and
  \<open>Inl e\<close> is a rejected promise: the \<open>catch\<close> block builds \<open>googleUrl\<close> again, outside any
  \<open>try\<close>.
\<close>

function fetchAudioWithRetry ::
  "config \<Rightarrow> transport \<Rightarrow> jsstring \<Rightarrow> jsstring \<Rightarrow> nat \<Rightarrow> nat \<Rightarrow> event list
     \<Rightarrow> (error + blob option) \<times> event list" where
  "fetchAudioWithRetry cfg tp text lang attempt proxyIndex tr =
     (case tryFetch cfg tp text lang proxyIndex tr of
        (Some blob, tr1) \<Rightarrow> (Inr (Some blob), tr1)
      | (None, tr1) \<Rightarrow>
          (let nextProxyIndex = proxyIndex + 1
           in if nextProxyIndex < length (PROXY_URLS cfg)
              then fetchAudioWithRetry cfg tp text lang attempt nextProxyIndex tr1
              else if attempt < RETRY_ATTEMPTS cfg
              then fetchAudioWithRetry cfg tp text lang (attempt + 1) 0
                     (tr1 @ [Delay (RETRY_DELAY cfg)])
              else (case googleUrl cfg text lang of
                      Inl e \<Rightarrow> (Inl e, tr1)
                    | Inr g \<Rightarrow> (Inr None, tr1 @ [WindowOpen g] @ showError ManualFallback))))"
  by pat_completeness auto
termination
  by (relation "inv_image (less_than <*lex*> less_than)
        (\<lambda>(cfg, tp, text, lang, attempt, proxyIndex, tr).
           (RETRY_ATTEMPTS cfg - attempt, length (PROXY_URLS cfg) - proxyIndex))") auto

declare fetchAudioWithRetry.simps [simp del]

section \<open>handleLongExport and handleExport\<close>

text \<open>\<open>downloadBlob(blob, ext)\<close> hands the blob to the browser as a file download.\<close>

definition downloadBlob :: "blob \<Rightarrow> jsstring \<Rightarrow> event list" where
  "downloadBlob b ext = [SaveFile b ext]"

text \<open>\<open>lang.split('-')[0]\<close>.\<close>

definition shortLangOf :: "jsstring \<Rightarrow> jsstring" where
  "shortLangOf lang = takeWhile (\<lambda>c. c \<noteq> 0x2D) lang"

text \<open>
  The \<open>for (let i = 0; i < totalChunks; i++)\<close> loop of \<open>handleLongExport\<close>, with \<open>blobs\<close>
  and the trace threaded through. \<open>Inl e\<close> is the exception that ends the loop.
\<close>

function exportLoop ::
  "config \<Rightarrow> transport \<Rightarrow> jsstring list \<Rightarrow> jsstring \<Rightarrow> nat \<Rightarrow> blob list \<Rightarrow> event list
     \<Rightarrow> (error + blob list) \<times> event list" where
  "exportLoop cfg tp chunks shortLang i blobs tr =
     (let totalChunks = length chunks
      in if i < totalChunks then
           (let chunk = chunks ! i
            in if trim chunk = [] then exportLoop cfg tp chunks shortLang (i + 1) blobs tr
               else (case fetchAudioWithRetry cfg tp chunk shortLang 1 0
                            (tr @ [UpdateStatus (ProcessingChunk (i + 1) totalChunks) True]) of
                       (Inl e, tr2) \<Rightarrow> (Inl e, tr2)
                     | (Inr None, tr2) \<Rightarrow> (Inl (ChunkFailed (i + 1)), tr2)
                     | (Inr (Some b), tr2) \<Rightarrow>
                         exportLoop cfg tp chunks shortLang (i + 1) (blobs @ [b])
                           (if i < totalChunks - 1 then tr2 @ [Delay 500] else tr2)))
         else (Inr blobs, tr))"
  by pat_completeness auto
termination
  by (relation "measure (\<lambda>(cfg, tp, chunks, shortLang, i, blobs, tr). length chunks - i)") auto

declare exportLoop.simps [simp del]

text \<open>
  \<open>handleLongExport(text, format)\<close>; \<open>lang\<close> is what \<open>getSelectedLanguage()\<close> returns.
  The result is the trace when the call completes; \<open>None\<close> stands for a call that never
  completes because \<open>chunkText\<close> does not return.
\<close>

definition handleLongExport ::
  "config \<Rightarrow> transport \<Rightarrow> jsstring \<Rightarrow> jsstring \<Rightarrow> jsstring \<Rightarrow> event list \<Rightarrow> event list option" where
  "handleLongExport cfg tp text lang format tr =
     (let tr0 = tr @ [UpdateStatus ProcessingLong True]
      in case chunkText text (CHUNK_SIZE cfg) of
           None \<Rightarrow> None
         | Some chunks \<Rightarrow>
             (case exportLoop cfg tp chunks (shortLangOf lang) 0 [] tr0 of
                (Inr blobs, tr1) \<Rightarrow>
                  Some (tr1 @ downloadBlob (concat blobs) format
                            @ [UpdateStatus DownloadComplete False])
              | (Inl e, tr1) \<Rightarrow>
                  Some (tr1 @ [UpdateStatus StatusError False] @ showError LongFailed)))"



section \<open>Notions used in the statements\<close>

text \<open>The index at which \<open>lastIndexOf\<close> starts its downward search.\<close>

definition searchStart :: "jsstring \<Rightarrow> jsstring \<Rightarrow> int \<Rightarrow> nat" where
  "searchStart s p pos = nat (min (max pos 0) (int (length s) - int (length p)))"

text \<open>A string that \<open>trim\<close> leaves as it is: no white space at either end.\<close>

definition trimmed :: "jsstring \<Rightarrow> bool" where
  "trimmed s \<longleftrightarrow> s = [] \<or> (\<not> isWhiteSpace (hd s) \<and> \<not> isWhiteSpace (last s))"

definition dropEnd :: "jsstring \<Rightarrow> jsstring" where
  "dropEnd s = rev (dropWhile isWhiteSpace (rev s))"

text \<open>
  The chunks written one after the other, with the separator \<open>seps ! i\<close> between chunk
  \<open>i\<close> and chunk \<open>i + 1\<close>.
\<close>

fun weave :: "jsstring list \<Rightarrow> jsstring list \<Rightarrow> jsstring" where
  "weave [] seps = []"
| "weave [c] seps = c"
| "weave (c # cs) [] = c @ weave cs []"
| "weave (c # cs) (w # ws) = c @ w @ weave cs ws"

text \<open>
  What holds of \<open>cutIndex\<close> after the enders \<open>seen\<close> have been scanned: no scanned ender
  was found beyond it, and it is \<open>-1\<close> or the end of a found ender.
\<close>

definition scanInv :: "jsstring \<Rightarrow> int \<Rightarrow> jsstring list \<Rightarrow> int \<Rightarrow> bool" where
  "scanInv r m seen c \<longleftrightarrow>
     (\<forall>e \<in> set seen. lastIndexOf r e m \<le> c) \<and>
     (c = - 1 \<or> (\<exists>e \<in> set seen. 0 \<le> lastIndexOf r e m \<and> c = lastIndexOf r e m + int (length e)))"

text \<open>One of the six sentence enders starts at index \<open>j\<close>.\<close>

definition enderAt :: "jsstring \<Rightarrow> nat \<Rightarrow> bool" where
  "enderAt r j \<longleftrightarrow> (\<exists>e \<in> set sentenceEnders. occursAt r e j)"

text \<open>Sample inputs.\<close>

definition sampleText :: jsstring where
  "sampleText = js ''  Hello world.  This is it!  ok now ''"

definition boundaryText :: jsstring where
  "boundaryText = js ''Hi. Yo! abcdefgh''"

definition newlineText :: jsstring where
  "newlineText = js ''ab.c'' @ [0xA] @ js ''defgh''"

text \<open>
  The blob of an outcome that \<open>fetchAudioWithRetry\<close> accepts: a response with a status from
  200 to 299 whose body can be read and is not empty.
\<close>

fun succeeded :: "outcome \<Rightarrow> blob option" where
  "succeeded NetworkError = None"
| "succeeded AbortError = None"
| "succeeded (Response status body) =
     (if 200 \<le> status \<and> status \<le> 299
      then (case body of None \<Rightarrow> None | Some b \<Rightarrow> if b = [] then None else Some b)
      else None)"

text \<open>The URL that an attempt with proxy \<open>proxyIndex\<close> requests, if it gets as far as that.\<close>

definition requestUrl :: "config \<Rightarrow> jsstring \<Rightarrow> jsstring \<Rightarrow> nat \<Rightarrow> jsstring option" where
  "requestUrl cfg text lang proxyIndex =
     (case googleUrl cfg text lang of
        Inl e \<Rightarrow> None
      | Inr g \<Rightarrow>
         (case encodeURIComponent g of
            Inl e \<Rightarrow> None
          | Inr eg \<Rightarrow> Some (currentProxy cfg proxyIndex @ eg)))"

text \<open>Readers of a trace.\<close>

fun fetchUrls :: "event list \<Rightarrow> jsstring list" where
  "fetchUrls [] = []"
| "fetchUrls (Fetch u # es) = u # fetchUrls es"
| "fetchUrls (e # es) = fetchUrls es"

fun opened :: "event list \<Rightarrow> jsstring list" where
  "opened [] = []"
| "opened (WindowOpen u # es) = u # opened es"
| "opened (e # es) = opened es"

fun saved :: "event list \<Rightarrow> (blob \<times> jsstring) list" where
  "saved [] = []"
| "saved (SaveFile b ext # es) = (b, ext) # saved es"
| "saved (e # es) = saved es"

fun notices :: "event list \<Rightarrow> notice list" where
  "notices [] = []"
| "notices (Notify n # es) = n # notices es"
| "notices (e # es) = notices es"

text \<open>
  The fixed ladder: the requests of one pass over the proxies from \<open>proxyIndex\<close> on, and
  the events of a ladder in which every attempt fails, from \<open>(attempt, proxyIndex)\<close> on:
  the rest of the current pass, then for each further attempt number the retry delay and a
  full pass. \<open>eg\<close> is the encoded target URL.
\<close>

definition passEvents :: "config \<Rightarrow> jsstring \<Rightarrow> nat \<Rightarrow> event list" where
  "passEvents cfg eg proxyIndex =
     map (\<lambda>q. Fetch (currentProxy cfg q @ eg)) [proxyIndex ..< length (PROXY_URLS cfg)]"

definition ladderEvents :: "config \<Rightarrow> jsstring \<Rightarrow> nat \<Rightarrow> nat \<Rightarrow> event list" where
  "ladderEvents cfg eg attempt proxyIndex =
     passEvents cfg eg proxyIndex @
     concat (map (\<lambda>a. Delay (RETRY_DELAY cfg) # passEvents cfg eg 0)
               [attempt ..< RETRY_ATTEMPTS cfg])"

text \<open>The prefix of a trace that ends with its \<open>n\<close>-th request.\<close>

fun uptoFetch :: "nat \<Rightarrow> event list \<Rightarrow> event list" where
  "uptoFetch 0 es = []"
| "uptoFetch (Suc n) [] = []"
| "uptoFetch (Suc n) (Fetch u # es) = Fetch u # uptoFetch n es"
| "uptoFetch (Suc n) (e # es) = e # uptoFetch (Suc n) es"

text \<open>
  The failures of one attempt: a network error, a timeout, a status outside 200 to 299, a
  body that cannot be read, an empty body.
\<close>

fun failed :: "outcome \<Rightarrow> bool" where
  "failed NetworkError = True"
| "failed AbortError = True"
| "failed (Response status body) =
     (\<not> (200 \<le> status \<and> status \<le> 299) \<or> body = None \<or> body = Some [])"

text \<open>
  The failures of one attempt in terms of the network's reply: a network error, a fetch
  still pending when the timer fires, a status outside 200 to 299, a body that cannot be
  read, an empty body.
\<close>

fun failedReply :: "reply \<Rightarrow> bool" where
  "failedReply (Rejects ms) = True"
| "failedReply (Resolves ms status bodyMs body) =
     (10000 \<le> ms \<or> \<not> (200 \<le> status \<and> status \<le> 299) \<or> body = None \<or> body = Some [])"

text \<open>
  A text of 203 code units without a space or a line feed: the letter a and 101 times the
  surrogate pair of U+1F600. Its first 200 code units end with the lead surrogate of the
  hundredth pair.
\<close>

definition emojiText :: jsstring where
  "emojiText = 0x61 # concat (replicate 101 [0xD83D, 0xDE00])"

definition emojiChunk :: jsstring where
  "emojiChunk = 0x61 # concat (replicate 99 [0xD83D, 0xDE00]) @ [0xD83D]"

text \<open>
  Sample networks: one whose six replies fail in turn with status 503, a network error, a
  response after 15 seconds, an empty body, status 404 and a network error after 20 seconds;
  and one that answers every request after 100 milliseconds with status 200 and a body that
  takes 60 seconds to read.
\<close>

definition netMixed :: network where
  "netMixed tr u =
     (let n = length (fetchUrls tr)
      in if n = 0 then Resolves 120 503 40 (Some [1])
         else if n = 1 then Rejects 50
         else if n = 2 then Resolves 15000 200 40 (Some [1, 2, 3])
         else if n = 3 then Resolves 80 200 10 (Some [])
         else if n = 4 then Resolves 30 404 10 (Some [1])
         else Rejects 20000)"

definition netSlowBody :: network where
  "netSlowBody tr u = Resolves 100 200 60000 (Some [1, 2, 3])"

text \<open>The target URL for the text Hi in English, and its encoded form.\<close>

definition hiTarget :: jsstring where
  "hiTarget = js ''https://translate.google.com/translate_tts?ie=UTF-8&tl=en&client=tw-ob&q=Hi''"

definition hiEncoded :: jsstring where
  "hiEncoded = js ''https%3A%2F%2Ftranslate.google.com%2Ftranslate_tts%3Fie%3DUTF-8%26tl%3Den%26client%3Dtw-ob%26q%3DHi''"

text \<open>
  Sample transports: only the second request of the run answered with audio; and the
  requests number 0, 3 and 4 of the run answered with a body that names the last code unit
  of the requested URL.
\<close>

definition tpSecond :: transport where
  "tpSecond tr u = (if length (fetchUrls tr) = 1 then Response 200 (Some [1, 2, 3])
                    else Response 503 (Some []))"

definition tpVaried :: transport where
  "tpVaried tr u = (if length (fetchUrls tr) \<in> {0, 3, 4} then Response 200 (Some [ucast (last u)])
                    else NetworkError)"

text \<open>The configuration with a chunk size of 12, for short sample texts.\<close>

definition testConfig :: config where
  "testConfig = CONFIG \<lparr> CHUNK_SIZE := 12 \<rparr>"

text \<open>A stand-in for the audio of a chunk: its last code unit as one byte.\<close>

definition lastUnit :: "jsstring \<Rightarrow> blob" where
  "lastUnit c = [ucast (last c)]"

text \<open>A string of code units below U+0080.\<close>

definition asciiOnly :: "jsstring \<Rightarrow> bool" where
  "asciiOnly s \<longleftrightarrow> (\<forall>c \<in> set s. c < 0x80)"

section \<open>Facts about the string primitives\<close>

lemma lastIndexOfDown_range:
  "lastIndexOfDown s p i = - 1 \<or>
   (0 \<le> lastIndexOfDown s p i \<and> lastIndexOfDown s p i \<le> int i \<and>
    occursAt s p (nat (lastIndexOfDown s p i)))"
proof (induction i)
  case 0
  then show ?case by simp
next
  case (Suc i)
  have "nat (1 + int i) = Suc i" by simp
  with Suc show ?case by auto
qed

lemma lastIndexOfDown_max:
  "occursAt s p j \<Longrightarrow> j \<le> i \<Longrightarrow> int j \<le> lastIndexOfDown s p i"
proof (induction i)
  case 0
  then show ?case by simp
next
  case (Suc i)
  then show ?case by (cases "j = Suc i") auto
qed

lemma lastIndexOfDown_none:
  "(\<forall>j \<le> i. \<not> occursAt s p j) \<Longrightarrow> lastIndexOfDown s p i = - 1"
  by (induction i) auto

lemma lastIndexOf_unfold:
  "length p \<le> length s \<Longrightarrow>
   lastIndexOf s p pos = lastIndexOfDown s p (searchStart s p pos)"
  by (simp add: lastIndexOf_def searchStart_def Let_def)

lemma lastIndexOf_short: "length s < length p \<Longrightarrow> lastIndexOf s p pos = - 1"
  by (simp add: lastIndexOf_def Let_def)

lemma lastIndexOf_range:
  "lastIndexOf s p pos = - 1 \<or>
   (0 \<le> lastIndexOf s p pos \<and> lastIndexOf s p pos \<le> int (searchStart s p pos) \<and>
    occursAt s p (nat (lastIndexOf s p pos)))"
proof (cases "length s < length p")
  case True
  then show ?thesis by (simp add: lastIndexOf_short)
next
  case False
  then have "lastIndexOf s p pos = lastIndexOfDown s p (searchStart s p pos)"
    by (simp add: lastIndexOf_unfold)
  then show ?thesis
    using lastIndexOfDown_range [of s p "searchStart s p pos"] by simp
qed

lemma lastIndexOf_max:
  "length p \<le> length s \<Longrightarrow> occursAt s p j \<Longrightarrow> j \<le> searchStart s p pos \<Longrightarrow>
   int j \<le> lastIndexOf s p pos"
  using lastIndexOfDown_max [of s p j "searchStart s p pos"]
  by (simp add: lastIndexOf_unfold)

lemma lastIndexOf_none:
  "(\<forall>j \<le> searchStart s p pos. \<not> occursAt s p j) \<Longrightarrow> lastIndexOf s p pos = - 1"
  using lastIndexOfDown_none [of "searchStart s p pos" s p]
  by (cases "length s < length p") (simp_all add: lastIndexOf_unfold lastIndexOf_short)

lemma lastIndexOf_upper:
  "length p \<le> length s \<Longrightarrow> lastIndexOf s p pos \<le> int (length s) - int (length p)"
  using lastIndexOf_range [of s p pos] by (auto simp: searchStart_def)

lemma lastIndexOf_upper_pos:
  "0 \<le> pos \<Longrightarrow> lastIndexOf s p pos \<le> pos"
  using lastIndexOf_range [of s p pos] by (auto simp: searchStart_def split: if_splits)

lemma trim_dropEnd: "trim s = dropEnd (dropWhile isWhiteSpace s)"
  by (simp add: trim_def dropEnd_def)

lemma dropEnd_split:
  "\<exists>w. s = dropEnd s @ w \<and> (\<forall>c \<in> set w. isWhiteSpace c)"
proof -
  have "rev s = takeWhile isWhiteSpace (rev s) @ dropWhile isWhiteSpace (rev s)"
    by simp
  then have "s = rev (dropWhile isWhiteSpace (rev s)) @ rev (takeWhile isWhiteSpace (rev s))"
    by (metis rev_append rev_rev_ident)
  moreover have "\<forall>c \<in> set (rev (takeWhile isWhiteSpace (rev s))). isWhiteSpace c"
    by (auto dest: set_takeWhileD)
  ultimately show ?thesis unfolding dropEnd_def by blast
qed

lemma dropEnd_last: "dropEnd s \<noteq> [] \<Longrightarrow> \<not> isWhiteSpace (last (dropEnd s))"
  unfolding dropEnd_def
  by (metis dropWhile_eq_Nil_conv hd_dropWhile last_rev rev_is_Nil_conv)

lemma dropEnd_id: "s \<noteq> [] \<Longrightarrow> \<not> isWhiteSpace (last s) \<Longrightarrow> dropEnd s = s"
  unfolding dropEnd_def
  by (metis dropWhile.simps(2) hd_rev list.collapse rev_is_Nil_conv rev_rev_ident)

lemma dropEnd_hd: "s \<noteq> [] \<Longrightarrow> \<not> isWhiteSpace (hd s) \<Longrightarrow> dropEnd s \<noteq> [] \<and> hd (dropEnd s) = hd s"
proof -
  assume a: "s \<noteq> []" "\<not> isWhiteSpace (hd s)"
  obtain w where w: "s = dropEnd s @ w" "\<forall>c \<in> set w. isWhiteSpace c"
    using dropEnd_split by blast
  show ?thesis
  proof (cases "dropEnd s = []")
    case True
    with w a have "hd s \<in> set w" by (metis append_Nil hd_in_set)
    with w a show ?thesis by blast
  next
    case False
    with w show ?thesis by (metis hd_append2)
  qed
qed

lemma dropWhile_split:
  "\<exists>w. s = w @ dropWhile isWhiteSpace s \<and> (\<forall>c \<in> set w. isWhiteSpace c)"
proof -
  have "s = takeWhile isWhiteSpace s @ dropWhile isWhiteSpace s" by simp
  moreover have "\<forall>c \<in> set (takeWhile isWhiteSpace s). isWhiteSpace c"
    by (auto dest: set_takeWhileD)
  ultimately show ?thesis by blast
qed

lemma dropWhile_keeps_last:
  "s \<noteq> [] \<Longrightarrow> \<not> isWhiteSpace (last s) \<Longrightarrow>
   dropWhile isWhiteSpace s \<noteq> [] \<and> last (dropWhile isWhiteSpace s) = last s"
proof -
  assume a: "s \<noteq> []" "\<not> isWhiteSpace (last s)"
  then have "last s \<in> set s" by simp
  with a have ne: "dropWhile isWhiteSpace s \<noteq> []"
    by (auto simp: dropWhile_eq_Nil_conv)
  have "s = takeWhile isWhiteSpace s @ dropWhile isWhiteSpace s" by simp
  with ne have "last s = last (dropWhile isWhiteSpace s)"
    by (metis last_appendR)
  with ne show ?thesis by simp
qed

lemma trim_length: "length (trim s) \<le> length s"
proof -
  have "length (trim s) \<le> length (dropWhile isWhiteSpace s)"
    using length_dropWhile_le [of isWhiteSpace "rev (dropWhile isWhiteSpace s)"]
    by (simp add: trim_def)
  also have "\<dots> \<le> length s" by (rule length_dropWhile_le)
  finally show ?thesis .
qed

lemma trimmed_trim: "trimmed (trim s)"
proof (cases "trim s = []")
  case True
  then show ?thesis by (simp add: trimmed_def)
next
  case False
  let ?d = "dropWhile isWhiteSpace s"
  from False have d: "?d \<noteq> []" by (auto simp: trim_def simp del: dropWhile_eq_Nil_conv)
  then have h: "\<not> isWhiteSpace (hd ?d)" by (rule hd_dropWhile)
  from dropEnd_hd [OF d h] have "hd (trim s) = hd ?d" by (simp add: trim_dropEnd)
  moreover from False have "\<not> isWhiteSpace (last (trim s))"
    using dropEnd_last [of ?d] by (simp add: trim_dropEnd)
  ultimately show ?thesis using h by (simp add: trimmed_def)
qed

lemma trim_id: "trimmed s \<Longrightarrow> trim s = s"
proof (cases "s = []")
  case True
  then show ?thesis by (simp add: trim_def)
next
  case False
  assume "trimmed s"
  with False have h: "\<not> isWhiteSpace (hd s)" and l: "\<not> isWhiteSpace (last s)"
    by (simp_all add: trimmed_def)
  from False h have "dropWhile isWhiteSpace s = s"
    by (cases s) simp_all
  with False l show ?thesis by (simp add: trim_dropEnd dropEnd_id)
qed

section \<open>Facts about chunkText\<close>

lemma substring_take:
  "0 \<le> k \<Longrightarrow> k \<le> int (length s) \<Longrightarrow> substring s 0 k = take (nat k) s"
  by (simp add: substring_def Let_def min_def max_def)

lemma substringFrom_drop:
  "0 \<le> k \<Longrightarrow> k \<le> int (length s) \<Longrightarrow> substringFrom s k = drop (nat k) s"
proof -
  assume a: "0 \<le> k" "k \<le> int (length s)"
  then have "length s - nat k \<le> nat (int (length s) - k)" by linarith
  with a show ?thesis
    by (simp add: substringFrom_def substring_def Let_def min_def max_def)
qed

lemma scanEnders_range:
  "\<forall>e \<in> set es. length e = 2 \<Longrightarrow> 2 \<le> length r \<Longrightarrow>
   c = - 1 \<or> (2 \<le> c \<and> c \<le> int (length r)) \<Longrightarrow>
   scanEnders r m es c = - 1 \<or> (2 \<le> scanEnders r m es c \<and> scanEnders r m es c \<le> int (length r))"
proof (induction es arbitrary: c)
  case Nil
  then show ?case by simp
next
  case (Cons e es)
  let ?idx = "lastIndexOf r e m"
  let ?c' = "if ?idx > c then ?idx + int (length e) else c"
  from Cons.prems have e2: "length e = 2" by simp
  have "?idx = - 1 \<or> 0 \<le> ?idx" using lastIndexOf_range [of r e m] by auto
  moreover have "?idx \<le> int (length r) - 2"
    using lastIndexOf_upper [of e r m] e2 Cons.prems(2) by simp
  ultimately have "?c' = - 1 \<or> (2 \<le> ?c' \<and> ?c' \<le> int (length r))"
    using Cons.prems(3) e2 by auto
  with Cons.IH [of ?c'] Cons.prems show ?case by (simp add: Let_def)
qed

lemma sentenceEnders_length: "\<forall>e \<in> set sentenceEnders. length e = 2"
  by (simp add: sentenceEnders_def)

lemma findCut_bounds:
  assumes "1 \<le> m" and "m < int (length r)"
  shows "1 \<le> findCut r m \<and> findCut r m \<le> int (length r)"
proof -
  let ?c1 = "scanEnders r m sentenceEnders (- 1)"
  let ?sp = "lastIndexOf r [0x20] m"
  from assms have len: "2 \<le> length r" by simp
  have c1: "?c1 = - 1 \<or> (2 \<le> ?c1 \<and> ?c1 \<le> int (length r))"
    using scanEnders_range [OF sentenceEnders_length len, of "- 1" m] by simp
  have sp: "?sp = - 1 \<or> 0 \<le> ?sp" using lastIndexOf_range [of r "[0x20]" m] by auto
  have sp2: "?sp \<le> int (length r) - 1"
    using lastIndexOf_upper [of "[0x20]" r m] len by simp
  show ?thesis
    using c1 sp sp2 assms by (auto simp: findCut_def Let_def)
qed

lemma split_trim:
  assumes t: "trimmed r" and ne: "r \<noteq> []" and k: "1 \<le> k" "k \<le> length r"
  shows "\<exists>w. (\<forall>c \<in> set w. isWhiteSpace c) \<and> r = trim (take k r) @ w @ trim (drop k r)
              \<and> trim (take k r) \<noteq> []"
proof -
  from t ne have h: "\<not> isWhiteSpace (hd r)" and l: "\<not> isWhiteSpace (last r)"
    by (simp_all add: trimmed_def)
  from k ne have tne: "take k r \<noteq> []" by (cases r) auto
  from k ne have "hd (take k r) = hd r" by (cases r) (auto simp: take_Cons')
  with h have h': "\<not> isWhiteSpace (hd (take k r))" by simp
  with tne have "dropWhile isWhiteSpace (take k r) = take k r"
    by (cases "take k r") simp_all
  then have tt: "trim (take k r) = dropEnd (take k r)" by (simp add: trim_dropEnd)
  obtain w1 where w1: "take k r = dropEnd (take k r) @ w1" "\<forall>c \<in> set w1. isWhiteSpace c"
    using dropEnd_split by blast
  from dropEnd_hd [OF tne h'] tt have c_ne: "trim (take k r) \<noteq> []" by simp
  show ?thesis
  proof (cases "drop k r = []")
    case True
    then have "trim (drop k r) = []" by (simp add: trim_def)
    moreover from w1 tt have "take k r = trim (take k r) @ w1" by simp
    moreover have "r = take k r @ drop k r" by simp
    ultimately have "r = trim (take k r) @ w1 @ trim (drop k r)"
      using True by (metis append_Nil2)
    with w1 c_ne show ?thesis by blast
  next
    case False
    then have "last (drop k r) = last r" by (simp add: last_drop)
    with l have l': "\<not> isWhiteSpace (last (drop k r))" by simp
    from dropWhile_keeps_last [OF False l']
    have d: "dropWhile isWhiteSpace (drop k r) \<noteq> []"
      "\<not> isWhiteSpace (last (dropWhile isWhiteSpace (drop k r)))" using l' by simp_all
    then have td: "trim (drop k r) = dropWhile isWhiteSpace (drop k r)"
      by (simp add: trim_dropEnd dropEnd_id)
    obtain w2 where w2: "drop k r = w2 @ dropWhile isWhiteSpace (drop k r)"
      "\<forall>c \<in> set w2. isWhiteSpace c"
      using dropWhile_split by blast
    have "r = take k r @ drop k r" by simp
    also have "\<dots> = (trim (take k r) @ w1) @ (w2 @ trim (drop k r))"
      using w1(1) w2(1) tt td by simp
    finally have "r = trim (take k r) @ (w1 @ w2) @ trim (drop k r)" by simp
    moreover have "\<forall>c \<in> set (w1 @ w2). isWhiteSpace c" using w1 w2 by auto
    ultimately show ?thesis using c_ne by blast
  qed
qed

lemma chunkLoop_step:
  assumes "1 \<le> m" and "m < int (length r)"
  shows "chunkLoop r m acc =
         chunkLoop (trim (drop (nat (findCut r m)) r)) m (acc @ [trim (take (nat (findCut r m)) r)])"
proof -
  from findCut_bounds [OF assms] have b: "0 \<le> findCut r m" "findCut r m \<le> int (length r)"
    by simp_all
  from assms have "0 < length r" "\<not> int (length r) \<le> m" by linarith+
  then show ?thesis
    by (subst chunkLoop.simps) (simp add: substring_take [OF b] substringFrom_drop [OF b])
qed

lemma chunkLoop_last:
  "0 < length r \<Longrightarrow> int (length r) \<le> m \<Longrightarrow> chunkLoop r m acc = Some (acc @ [r])"
  by (subst chunkLoop.simps) simp

lemma chunkLoop_empty: "chunkLoop [] m acc = Some acc"
  by (subst chunkLoop.simps) simp

lemma step_shrinks:
  assumes "1 \<le> m" and "m < int (length r)"
  shows "length (trim (drop (nat (findCut r m)) r)) < length r"
proof -
  from findCut_bounds [OF assms] have "1 \<le> nat (findCut r m)" by linarith
  with assms have "length (drop (nat (findCut r m)) r) < length r" by simp
  with trim_length [of "drop (nat (findCut r m)) r"] show ?thesis by simp
qed

lemma chunkLoop_total:
  assumes "1 \<le> m"
  shows "\<exists>cs. chunkLoop r m acc = Some (acc @ cs)"
proof (induction "length r" arbitrary: r acc rule: less_induct)
  case less
  show ?case
  proof (cases "r = []")
    case True
    then show ?thesis by (simp add: chunkLoop_empty)
  next
    case ne: False
    show ?thesis
    proof (cases "int (length r) \<le> m")
      case True
      with ne show ?thesis by (simp add: chunkLoop_last)
    next
      case False
      then have gt: "m < int (length r)" by simp
      let ?r' = "trim (drop (nat (findCut r m)) r)"
      let ?c = "trim (take (nat (findCut r m)) r)"
      from less [OF step_shrinks [OF assms gt], of "acc @ [?c]"]
      obtain cs where "chunkLoop ?r' m (acc @ [?c]) = Some ((acc @ [?c]) @ cs)" by blast
      then have "chunkLoop r m acc = Some (acc @ (?c # cs))"
        by (simp add: chunkLoop_step [OF assms gt])
      then show ?thesis by blast
    qed
  qed
qed

lemma chunkLoop_weave:
  assumes "1 \<le> m"
  shows "trimmed r \<Longrightarrow>
    \<exists>cs seps. chunkLoop r m acc = Some (acc @ cs) \<and> length seps = length cs - 1 \<and>
      (\<forall>w \<in> set seps. \<forall>c \<in> set w. isWhiteSpace c) \<and> weave cs seps = r"
proof (induction "length r" arbitrary: r acc rule: less_induct)
  case less
  show ?case
  proof (cases "r = []")
    case True
    then have "chunkLoop r m acc = Some (acc @ []) \<and> length ([]::jsstring list) = length ([]::jsstring list) - 1
      \<and> (\<forall>w \<in> set ([]::jsstring list). \<forall>c \<in> set w. isWhiteSpace c) \<and> weave [] [] = r"
      by (simp add: chunkLoop_empty)
    then show ?thesis by blast
  next
    case ne: False
    show ?thesis
    proof (cases "int (length r) \<le> m")
      case True
      with ne have "chunkLoop r m acc = Some (acc @ [r]) \<and> length ([]::jsstring list) = length [r] - 1
        \<and> (\<forall>w \<in> set ([]::jsstring list). \<forall>c \<in> set w. isWhiteSpace c) \<and> weave [r] [] = r"
        by (simp add: chunkLoop_last)
      then show ?thesis by blast
    next
      case False
      then have gt: "m < int (length r)" by simp
      let ?k = "nat (findCut r m)"
      let ?r' = "trim (drop ?k r)"
      let ?c = "trim (take ?k r)"
      from findCut_bounds [OF assms gt] have k: "1 \<le> ?k" "?k \<le> length r" by linarith+
      from split_trim [OF less.prems ne k]
      obtain w where w: "\<forall>c \<in> set w. isWhiteSpace c" "r = ?c @ w @ ?r'" "?c \<noteq> []"
        by blast
      from less.hyps [OF step_shrinks [OF assms gt] trimmed_trim, of "acc @ [?c]"]
      obtain cs seps where IH: "chunkLoop ?r' m (acc @ [?c]) = Some ((acc @ [?c]) @ cs)"
        "length seps = length cs - 1" "\<forall>w \<in> set seps. \<forall>c \<in> set w. isWhiteSpace c"
        "weave cs seps = ?r'" by blast
      have run: "chunkLoop r m acc = Some (acc @ (?c # cs))"
        using IH(1) by (simp add: chunkLoop_step [OF assms gt])
      show ?thesis
      proof (cases cs)
        case Nil
        with IH(4) have r'e: "?r' = []" by simp
        from IH(2) Nil have "seps = []" by simp
        have "w = []"
        proof (rule ccontr)
          assume "w \<noteq> []"
          with w(2) r'e have "last r = last w" by (metis append_Nil2 last_appendR)
          moreover from \<open>w \<noteq> []\<close> have "last w \<in> set w" by simp
          ultimately have "isWhiteSpace (last r)" using w(1) by simp
          with less.prems ne show False by (simp add: trimmed_def)
        qed
        with w(2) r'e have "weave [?c] [] = r" by simp
        with run Nil have "chunkLoop r m acc = Some (acc @ [?c]) \<and>
          length ([]::jsstring list) = length [?c] - 1 \<and>
          (\<forall>w \<in> set ([]::jsstring list). \<forall>c \<in> set w. isWhiteSpace c) \<and> weave [?c] [] = r"
          by simp
        then show ?thesis by blast
      next
        case (Cons c' cs')
        then have "weave (?c # cs) (w # seps) = ?c @ w @ weave cs seps" by simp
        with IH(4) w(2) have "weave (?c # cs) (w # seps) = r" by simp
        moreover from IH(2) Cons have "length (w # seps) = length (?c # cs) - 1" by simp
        moreover from IH(3) w(1) have "\<forall>x \<in> set (w # seps). \<forall>c \<in> set x. isWhiteSpace c" by simp
        ultimately show ?thesis using run by blast
      qed
    qed
  qed
qed

lemma occursAt_fits: "occursAt r e j \<Longrightarrow> e \<noteq> [] \<Longrightarrow> j + length e \<le> length r"
proof -
  assume a: "occursAt r e j" "e \<noteq> []"
  then have "length (take (length e) (drop j r)) = length e" by (simp add: occursAt_def)
  then have "min (length e) (length r - j) = length e" by simp
  moreover from a have "0 < length e" by simp
  ultimately show ?thesis by linarith
qed

lemma occursAt_window:
  assumes "occursAt r e j" and "e \<noteq> []" and "int j \<le> m"
  shows "int j \<le> lastIndexOf r e m"
proof -
  from occursAt_fits [OF assms(1,2)] have f: "j + length e \<le> length r" .
  then have "length e \<le> length r" by simp
  moreover from f assms(3) have "j \<le> searchStart r e m" by (simp add: searchStart_def)
  ultimately show ?thesis using assms(1) by (simp add: lastIndexOf_max)
qed

lemma lastIndexOf_found:
  assumes "0 \<le> m" and "lastIndexOf r e m \<noteq> - 1"
  shows "0 \<le> lastIndexOf r e m \<and> lastIndexOf r e m \<le> m \<and> occursAt r e (nat (lastIndexOf r e m))"
  using lastIndexOf_range [of r e m] lastIndexOf_upper_pos [OF assms(1), of r e] assms(2) by auto

lemma scanEnders_inv:
  "scanInv r m seen c \<Longrightarrow> scanInv r m (seen @ es) (scanEnders r m es c)"
proof (induction es arbitrary: seen c)
  case Nil
  then show ?case by simp
next
  case (Cons e es)
  let ?idx = "lastIndexOf r e m"
  let ?c' = "if ?idx > c then ?idx + int (length e) else c"
  from Cons.prems have c: "- 1 \<le> c" by (auto simp: scanInv_def)
  have "scanInv r m (seen @ [e]) ?c'"
  proof (cases "?idx > c")
    case True
    with c have "0 \<le> ?idx" by simp
    with True Cons.prems show ?thesis by (fastforce simp: scanInv_def)
  next
    case False
    with Cons.prems show ?thesis by (fastforce simp: scanInv_def)
  qed
  from Cons.IH [OF this] show ?case by (simp add: Let_def)
qed

lemma scanEnders_keep:
  "\<forall>e \<in> set es. lastIndexOf r e m \<le> c \<Longrightarrow> scanEnders r m es c = c"
  by (induction es) (simp_all add: Let_def)

lemma occursAt_single: "occursAt r [c] j \<longleftrightarrow> j < length r \<and> r ! j = c"
proof (cases "j < length r")
  case True
  then have "drop j r = r ! j # drop (Suc j) r" by (simp add: Cons_nth_drop_Suc)
  with True show ?thesis by (simp add: occursAt_def)
next
  case False
  then show ?thesis by (simp add: occursAt_def)
qed

lemma sentenceEnders_nonempty: "e \<in> set sentenceEnders \<Longrightarrow> e \<noteq> [] \<and> int (length e) = 2"
  by (auto simp: sentenceEnders_def)

lemma scan_result:
  "scanInv r m sentenceEnders (scanEnders r m sentenceEnders (- 1))"
proof -
  have "scanInv r m [] (- 1)" by (simp add: scanInv_def)
  from scanEnders_inv [OF this, of sentenceEnders] show ?thesis by simp
qed

lemma findCut_ender:
  assumes m: "1 \<le> m" and ex: "int j \<le> m" "enderAt r j"
  shows "\<exists>i. int i \<le> m \<and> enderAt r i \<and> findCut r m = int i + 2 \<and>
             (\<forall>j. int j \<le> m \<and> enderAt r j \<longrightarrow> int j \<le> findCut r m)"
proof -
  let ?res = "scanEnders r m sentenceEnders (- 1)"
  have inv: "scanInv r m sentenceEnders ?res" by (rule scan_result)
  have upper: "int k \<le> ?res" if "int k \<le> m" "enderAt r k" for k
  proof -
    from that(2) obtain e where e: "e \<in> set sentenceEnders" "occursAt r e k"
      by (auto simp: enderAt_def)
    from occursAt_window [OF e(2) _ that(1)] e(1) sentenceEnders_nonempty
    have "int k \<le> lastIndexOf r e m" by blast
    moreover from inv e(1) have "lastIndexOf r e m \<le> ?res" by (simp add: scanInv_def)
    ultimately show ?thesis by simp
  qed
  from upper [OF ex] have "?res \<noteq> - 1" by auto
  with inv obtain e where e: "e \<in> set sentenceEnders" "0 \<le> lastIndexOf r e m"
    "?res = lastIndexOf r e m + int (length e)" by (auto simp: scanInv_def)
  from e(1) sentenceEnders_nonempty have l2: "int (length e) = 2" by blast
  with e have res: "?res = lastIndexOf r e m + 2" "2 \<le> ?res" by simp_all
  then have cut: "findCut r m = ?res" by (simp add: findCut_def Let_def)
  let ?i = "nat (lastIndexOf r e m)"
  from m e(2) have f: "lastIndexOf r e m \<le> m \<and> occursAt r e ?i"
    using lastIndexOf_found [of m r e] by simp
  with e have "int ?i \<le> m" "enderAt r ?i" "findCut r m = int ?i + 2"
    using cut res by (auto simp: enderAt_def)
  moreover have "\<forall>j. int j \<le> m \<and> enderAt r j \<longrightarrow> int j \<le> findCut r m"
    using upper cut by simp
  ultimately show ?thesis by blast
qed

lemma scan_none:
  assumes m: "1 \<le> m" and no: "\<not> (\<exists>j. int j \<le> m \<and> enderAt r j)"
  shows "scanEnders r m sentenceEnders (- 1) = - 1"
proof -
  have "lastIndexOf r e m \<le> - 1" if "e \<in> set sentenceEnders" for e
  proof (rule ccontr)
    assume "\<not> lastIndexOf r e m \<le> - 1"
    then have "lastIndexOf r e m \<noteq> - 1" by simp
    with m have f: "0 \<le> lastIndexOf r e m" "lastIndexOf r e m \<le> m"
      "occursAt r e (nat (lastIndexOf r e m))"
      using lastIndexOf_found [of m r e] by simp_all
    then have "int (nat (lastIndexOf r e m)) \<le> m \<and> enderAt r (nat (lastIndexOf r e m))"
      using that by (auto simp: enderAt_def)
    with no show False by blast
  qed
  then show ?thesis by (simp add: scanEnders_keep)
qed

lemma findCut_space:
  assumes m: "1 \<le> m" and no: "\<not> (\<exists>j. int j \<le> m \<and> enderAt r j)"
    and sp: "1 \<le> j" "int j \<le> m" "j < length r" "r ! j = 0x20"
  shows "1 \<le> findCut r m \<and> findCut r m \<le> m \<and> r ! nat (findCut r m) = 0x20 \<and>
         (\<forall>j. int j \<le> m \<and> j < length r \<and> r ! j = 0x20 \<longrightarrow> int j \<le> findCut r m)"
proof -
  let ?sp = "lastIndexOf r [0x20] m"
  have upper: "int k \<le> ?sp" if "int k \<le> m" "k < length r" "r ! k = 0x20" for k
    using occursAt_window [of r "[0x20]" k m] that by (simp add: occursAt_single)
  from upper [OF sp(2,3,4)] sp(1) have pos: "1 \<le> ?sp" by simp
  with m have f: "?sp \<le> m" "occursAt r [0x20] (nat ?sp)"
    using lastIndexOf_found [of m r "[0x20]"] by simp_all
  from pos have "findCut r m = ?sp"
    by (simp add: findCut_def Let_def scan_none [OF m no])
  with pos f upper show ?thesis by (simp add: occursAt_single)
qed

lemma findCut_hard:
  assumes m: "1 \<le> m" and no: "\<not> (\<exists>j. int j \<le> m \<and> enderAt r j)"
    and nsp: "\<not> (\<exists>j. 1 \<le> j \<and> int j \<le> m \<and> j < length r \<and> r ! j = 0x20)"
  shows "findCut r m = m"
proof -
  let ?sp = "lastIndexOf r [0x20] m"
  have "?sp = - 1 \<or> ?sp = 0"
  proof (rule ccontr)
    assume a: "\<not> (?sp = - 1 \<or> ?sp = 0)"
    with m have f: "0 \<le> ?sp" "?sp \<le> m" "occursAt r [0x20] (nat ?sp)"
      using lastIndexOf_found [of m r "[0x20]"] by simp_all
    with a have "1 \<le> nat ?sp \<and> int (nat ?sp) \<le> m \<and> nat ?sp < length r \<and> r ! nat ?sp = 0x20"
      by (simp add: occursAt_single)
    with nsp show False by blast
  qed
  then show ?thesis
    by (auto simp: findCut_def Let_def scan_none [OF m no])
qed

lemma trim_text_cut:
  "1 \<le> n \<Longrightarrow> trim (replicate n 0x61 @ [0x2E, 0x20]) = replicate n 0x61 @ [0x2E]"
proof -
  assume "1 \<le> n"
  then obtain k where k: "n = Suc k" by (cases n) simp_all
  show ?thesis by (simp add: k trim_def isWhiteSpace_def)
qed

lemma long_sentence_chunks:
  assumes n: "1 \<le> n"
  shows "chunkText (replicate n 0x61 @ [0x2E, 0x20, 0x62]) (int n) =
         Some [replicate n 0x61 @ [0x2E], [0x62]]"
proof -
  let ?s = "replicate n 0x61 @ [0x2E, 0x20, 0x62] :: jsstring"
  from n obtain k where k: "n = Suc k" by (cases n) simp_all
  have "trimmed ?s" by (simp add: trimmed_def isWhiteSpace_def k)
  then have t: "trim ?s = ?s" by (rule trim_id)
  have m: "1 \<le> int n" "int n < int (length ?s)" using n by simp_all
  have occ: "occursAt ?s [0x2E, 0x20] n" by (simp add: occursAt_def)
  have "int n \<le> lastIndexOf ?s [0x2E, 0x20] (int n)"
    by (rule occursAt_window [OF occ]) simp_all
  moreover have "lastIndexOf ?s [0x2E, 0x20] (int n) \<le> int n"
    by (rule lastIndexOf_upper_pos) simp
  ultimately have idx: "lastIndexOf ?s [0x2E, 0x20] (int n) = int n" by simp
  have keep: "scanEnders ?s (int n) es (int n + 2) = int n + 2" for es
  proof (rule scanEnders_keep, rule ballI)
    fix e
    have "lastIndexOf ?s e (int n) \<le> int n" by (rule lastIndexOf_upper_pos) simp
    then show "lastIndexOf ?s e (int n) \<le> int n + 2" by simp
  qed
  have "scanEnders ?s (int n) ([0x2E, 0x20] # es) (- 1) = int n + 2" for es
  proof -
    have "scanEnders ?s (int n) ([0x2E, 0x20] # es) (- 1) = scanEnders ?s (int n) es (int n + 2)"
      by (subst scanEnders.simps(2)) (simp add: idx Let_def)
    with keep show ?thesis by simp
  qed
  then have "scanEnders ?s (int n) sentenceEnders (- 1) = int n + 2"
    unfolding sentenceEnders_def .
  then have cut: "findCut ?s (int n) = int n + 2"
    using n by (simp add: findCut_def Let_def)
  have "nat (int n + 2) = n + 2" by simp
  with chunkLoop_step [OF m, of "[]"] cut
  have "chunkLoop ?s (int n) [] =
        chunkLoop (trim (drop (n + 2) ?s)) (int n) [trim (take (n + 2) ?s)]"
    by simp
  moreover have "take (n + 2) ?s = replicate n 0x61 @ [0x2E, 0x20]" by simp
  moreover have "drop (n + 2) ?s = [0x62]" by simp
  moreover have "trim [0x62] = [0x62]" by (simp add: trim_def isWhiteSpace_def)
  ultimately have "chunkLoop ?s (int n) [] =
        chunkLoop [0x62] (int n) [replicate n 0x61 @ [0x2E]]"
    using trim_text_cut [OF n] by simp
  also have "\<dots> = Some [replicate n 0x61 @ [0x2E], [0x62]]"
    using n by (simp add: chunkLoop_last)
  finally show ?thesis by (simp add: chunkText_def t)
qed

lemma trim_drops_last_space:
  assumes "isWhiteSpace y"
  shows "length (trim (xs @ [y])) \<le> length xs"
proof (cases "\<forall>x \<in> set xs. isWhiteSpace x")
  case True
  with assms have "dropWhile isWhiteSpace (xs @ [y]) = []" by simp
  then show ?thesis by (simp add: trim_def)
next
  case False
  then obtain x where "x \<in> set xs" "\<not> isWhiteSpace x" by blast
  then have "dropWhile isWhiteSpace (xs @ [y]) = dropWhile isWhiteSpace xs @ [y]"
    by (rule dropWhile_append1)
  with assms have "trim (xs @ [y]) = rev (dropWhile isWhiteSpace (rev (dropWhile isWhiteSpace xs)))"
    by (simp add: trim_def)
  then have "trim (xs @ [y]) = trim xs" by (simp add: trim_def)
  then show ?thesis by (simp add: trim_length)
qed

lemma cut_chunk_length:
  assumes m: "1 \<le> m" and len: "m < int (length r)"
  shows "int (length (trim (take (nat (findCut r m)) r))) \<le> m + 1"
proof (cases "findCut r m \<le> m")
  case True
  have "length (trim (take (nat (findCut r m)) r)) \<le> length (take (nat (findCut r m)) r)"
    by (rule trim_length)
  also have "\<dots> \<le> nat (findCut r m)" by simp
  finally show ?thesis using True m by linarith
next
  case False
  have ex: "\<exists>j. int j \<le> m \<and> enderAt r j"
  proof (rule ccontr)
    assume no: "\<not> (\<exists>j. int j \<le> m \<and> enderAt r j)"
    show False
    proof (cases "\<exists>j. 1 \<le> j \<and> int j \<le> m \<and> j < length r \<and> r ! j = 0x20")
      case True
      then obtain j where "1 \<le> j" "int j \<le> m" "j < length r" "r ! j = 0x20" by blast
      from findCut_space [OF m no this] False show False by simp
    next
      case nsp: False
      from findCut_hard [OF m no nsp] False show False by simp
    qed
  qed
  then obtain j0 where "int j0 \<le> m" "enderAt r j0" by blast
  from findCut_ender [OF m this] obtain i where
    i: "int i \<le> m" "enderAt r i" "findCut r m = int i + 2" by blast
  from i(2) obtain e where e: "e \<in> set sentenceEnders" "occursAt r e i"
    by (auto simp: enderAt_def)
  from e(1) obtain x y where xy: "e = [x, y]" "isWhiteSpace y"
    by (auto simp: sentenceEnders_def isWhiteSpace_def)
  from occursAt_fits [OF e(2)] xy(1) have fit: "i + 2 \<le> length r" by simp
  from e(2) xy(1) have "take (length e) (drop i r) = [x, y]" by (simp add: occursAt_def)
  moreover have "take (i + length e) r = take i r @ take (length e) (drop i r)"
    by (simp add: take_add)
  moreover from xy(1) have "i + length e = i + 2" by simp
  ultimately have "take (i + 2) r = (take i r @ [x]) @ [y]" by simp
  with i(3) have "trim (take (nat (findCut r m)) r) = trim ((take i r @ [x]) @ [y])"
    by (simp add: nat_add_distrib)
  with trim_drops_last_space [OF xy(2), of "take i r @ [x]"]
  have "length (trim (take (nat (findCut r m)) r)) \<le> i + 1" by simp
  with i(1) show ?thesis by linarith
qed

lemma chunk_length_bound:
  assumes m: "1 \<le> m" and acc: "\<forall>c \<in> set acc. int (length c) \<le> m + 1"
  shows "chunkLoop r m acc = Some cs \<Longrightarrow> \<forall>c \<in> set cs. int (length c) \<le> m + 1"
  using acc
proof (induction "length r" arbitrary: r acc rule: less_induct)
  case less
  show ?case
  proof (cases "r = []")
    case True
    with less.prems show ?thesis by (simp add: chunkLoop_empty)
  next
    case ne: False
    show ?thesis
    proof (cases "int (length r) \<le> m")
      case True
      with ne less.prems show ?thesis by (auto simp: chunkLoop_last)
    next
      case False
      then have gt: "m < int (length r)" by simp
      let ?c = "trim (take (nat (findCut r m)) r)"
      from less.prems(1) have run: "chunkLoop (trim (drop (nat (findCut r m)) r)) m (acc @ [?c]) = Some cs"
        by (simp add: chunkLoop_step [OF m gt])
      from cut_chunk_length [OF m gt] less.prems(2)
      have "\<forall>c \<in> set (acc @ [?c]). int (length c) \<le> m + 1" by simp
      from less.hyps [OF step_shrinks [OF m gt] run this] show ?thesis .
    qed
  qed
qed

lemma chunkText_length_bound:
  "1 \<le> maxSize \<Longrightarrow> chunkText source maxSize = Some chunks \<Longrightarrow>
   \<forall>c \<in> set chunks. int (length c) \<le> maxSize + 1"
  using chunk_length_bound [of maxSize "[]" "trim source" chunks] by (simp add: chunkText_def)

section \<open>Facts about the fetch ladder\<close>

lemma tryFetch_eq:
  "tryFetch cfg tp text lang p tr =
     (case requestUrl cfg text lang p of
        None \<Rightarrow> (None, tr)
      | Some u \<Rightarrow> (succeeded (tp tr u), tr @ [Fetch u]))"
  by (simp add: tryFetch_def requestUrl_def Let_def
           split: sum.splits outcome.splits option.splits)

lemma fetch_success:
  "tryFetch cfg tp text lang p tr = (Some b, tr1) \<Longrightarrow>
   fetchAudioWithRetry cfg tp text lang a p tr = (Inr (Some b), tr1)"
  by (subst fetchAudioWithRetry.simps) simp

lemma fetch_next:
  "tryFetch cfg tp text lang p tr = (None, tr1) \<Longrightarrow> p + 1 < length (PROXY_URLS cfg) \<Longrightarrow>
   fetchAudioWithRetry cfg tp text lang a p tr =
   fetchAudioWithRetry cfg tp text lang a (p + 1) tr1"
  by (subst fetchAudioWithRetry.simps) simp

lemma fetch_retry:
  "tryFetch cfg tp text lang p tr = (None, tr1) \<Longrightarrow> \<not> p + 1 < length (PROXY_URLS cfg) \<Longrightarrow>
   a < RETRY_ATTEMPTS cfg \<Longrightarrow>
   fetchAudioWithRetry cfg tp text lang a p tr =
   fetchAudioWithRetry cfg tp text lang (a + 1) 0 (tr1 @ [Delay (RETRY_DELAY cfg)])"
  by (subst fetchAudioWithRetry.simps) simp

lemma fetch_exhausted:
  "tryFetch cfg tp text lang p tr = (None, tr1) \<Longrightarrow> \<not> p + 1 < length (PROXY_URLS cfg) \<Longrightarrow>
   \<not> a < RETRY_ATTEMPTS cfg \<Longrightarrow>
   fetchAudioWithRetry cfg tp text lang a p tr =
     (case googleUrl cfg text lang of
        Inl e \<Rightarrow> (Inl e, tr1)
      | Inr g \<Rightarrow> (Inr None, tr1 @ [WindowOpen g] @ showError ManualFallback))"
  by (subst fetchAudioWithRetry.simps) simp

lemma ladder_next:
  "p + 1 < length (PROXY_URLS cfg) \<Longrightarrow>
   ladderEvents cfg eg a p = Fetch (currentProxy cfg p @ eg) # ladderEvents cfg eg a (p + 1)"
  by (simp add: ladderEvents_def passEvents_def upt_conv_Cons)

lemma ladder_retry:
  "p < length (PROXY_URLS cfg) \<Longrightarrow> \<not> p + 1 < length (PROXY_URLS cfg) \<Longrightarrow>
   a < RETRY_ATTEMPTS cfg \<Longrightarrow>
   ladderEvents cfg eg a p =
     Fetch (currentProxy cfg p @ eg) # Delay (RETRY_DELAY cfg) # ladderEvents cfg eg (a + 1) 0"
  by (simp add: ladderEvents_def passEvents_def upt_conv_Cons)

lemma ladder_last:
  "p < length (PROXY_URLS cfg) \<Longrightarrow> \<not> p + 1 < length (PROXY_URLS cfg) \<Longrightarrow>
   \<not> a < RETRY_ATTEMPTS cfg \<Longrightarrow>
   ladderEvents cfg eg a p = [Fetch (currentProxy cfg p @ eg)]"
  by (simp add: ladderEvents_def passEvents_def upt_conv_Cons)

lemma fetchUrls_append: "fetchUrls (xs @ ys) = fetchUrls xs @ fetchUrls ys"
  by (induction xs rule: fetchUrls.induct) simp_all

lemma opened_append: "opened (xs @ ys) = opened xs @ opened ys"
  by (induction xs rule: opened.induct) simp_all

lemma saved_append: "saved (xs @ ys) = saved xs @ saved ys"
  by (induction xs rule: saved.induct) simp_all

lemma notices_append: "notices (xs @ ys) = notices xs @ notices ys"
  by (induction xs rule: notices.induct) simp_all

lemma fetchUrls_pass:
  "fetchUrls (map (\<lambda>q. Fetch (f q)) qs) = map f qs"
  by (induction qs) simp_all

lemma fetchUrls_passes:
  "length (fetchUrls (concat (map (\<lambda>a. Delay d # map (\<lambda>q. Fetch (f q)) qs) as)))
     = length as * length qs"
  by (induction as) (simp_all add: fetchUrls_append fetchUrls_pass)

lemma ladder_count:
  "length (fetchUrls (ladderEvents cfg eg a p)) =
     (length (PROXY_URLS cfg) - p) + (RETRY_ATTEMPTS cfg - a) * length (PROXY_URLS cfg)"
  by (simp add: ladderEvents_def passEvents_def fetchUrls_append fetchUrls_pass fetchUrls_passes)

lemma ladder_opened: "opened (ladderEvents cfg eg a p) = []"
proof -
  have 1: "opened (map (\<lambda>q. Fetch (f q)) qs) = []" for f :: "nat \<Rightarrow> jsstring" and qs
    by (induction qs) simp_all
  have 2: "opened (concat (map (\<lambda>a. Delay d # map (\<lambda>q. Fetch (f q)) qs) as)) = []"
    for f :: "nat \<Rightarrow> jsstring" and qs d and as :: "nat list"
    by (induction as) (simp_all add: opened_append 1)
  show ?thesis by (simp add: ladderEvents_def passEvents_def opened_append 1 2)
qed

lemma all_fail_ladder:
  assumes g: "googleUrl cfg text lang = Inr g" and eg: "encodeURIComponent g = Inr eg"
    and fail: "\<forall>tr' u. succeeded (tp tr' u) = None"
  shows "p < length (PROXY_URLS cfg) \<Longrightarrow>
    fetchAudioWithRetry cfg tp text lang a p tr =
      (Inr None, tr @ ladderEvents cfg eg a p @ [WindowOpen g] @ showError ManualFallback)"
proof (induction "length (ladderEvents cfg eg a p)" arbitrary: a p tr rule: less_induct)
  case less
  let ?u = "currentProxy cfg p @ eg"
  have att: "tryFetch cfg tp text lang p tr = (None, tr @ [Fetch ?u])"
    using g eg fail by (simp add: tryFetch_eq requestUrl_def)
  show ?case
  proof (cases "p + 1 < length (PROXY_URLS cfg)")
    case True
    have "fetchAudioWithRetry cfg tp text lang a (p + 1) (tr @ [Fetch ?u]) =
          (Inr None, (tr @ [Fetch ?u]) @ ladderEvents cfg eg a (p + 1) @ [WindowOpen g]
             @ showError ManualFallback)"
      using True by (intro less.hyps) (simp_all add: ladder_next [OF True])
    then show ?thesis
      by (simp add: fetch_next [OF att True] ladder_next [OF True])
  next
    case last: False
    show ?thesis
    proof (cases "a < RETRY_ATTEMPTS cfg")
      case True
      have "fetchAudioWithRetry cfg tp text lang (a + 1) 0 ((tr @ [Fetch ?u]) @ [Delay (RETRY_DELAY cfg)]) =
          (Inr None, ((tr @ [Fetch ?u]) @ [Delay (RETRY_DELAY cfg)]) @ ladderEvents cfg eg (a + 1) 0
             @ [WindowOpen g] @ showError ManualFallback)"
      proof (intro less.hyps)
        show "length (ladderEvents cfg eg (a + 1) 0) < length (ladderEvents cfg eg a p)"
          by (simp add: ladder_retry [OF less.prems last True])
        from less.prems show "0 < length (PROXY_URLS cfg)" by (cases "PROXY_URLS cfg") simp_all
      qed
      then show ?thesis
        by (simp add: fetch_retry [OF att last True] ladder_retry [OF less.prems last True])
    next
      case False
      then show ?thesis
        by (simp add: fetch_exhausted [OF att last False] g ladder_last [OF less.prems last False])
    qed
  qed
qed

lemma ladder_first:
  "p < length (PROXY_URLS cfg) \<Longrightarrow>
   \<exists>rest. ladderEvents cfg eg a p = Fetch (currentProxy cfg p @ eg) # rest"
  by (simp add: ladderEvents_def passEvents_def upt_conv_Cons)

lemma first_success_ladder:
  assumes g: "googleUrl cfg text lang = Inr g" and eg: "encodeURIComponent g = Inr eg"
  shows "p < length (PROXY_URLS cfg) \<Longrightarrow>
    j < length (fetchUrls (ladderEvents cfg eg a p)) \<Longrightarrow>
    (\<forall>tr' u. length (fetchUrls tr') < length (fetchUrls tr) + j \<longrightarrow> succeeded (tp tr' u) = None) \<Longrightarrow>
    (\<forall>tr' u. length (fetchUrls tr') = length (fetchUrls tr) + j \<longrightarrow> succeeded (tp tr' u) = Some b) \<Longrightarrow>
    fetchAudioWithRetry cfg tp text lang a p tr =
      (Inr (Some b), tr @ uptoFetch (Suc j) (ladderEvents cfg eg a p))"
proof (induction j arbitrary: a p tr)
  case 0
  let ?u = "currentProxy cfg p @ eg"
  from 0 have "succeeded (tp tr ?u) = Some b" by simp
  then have att: "tryFetch cfg tp text lang p tr = (Some b, tr @ [Fetch ?u])"
    using g eg by (simp add: tryFetch_eq requestUrl_def)
  from ladder_first [OF 0(1)] obtain rest where "ladderEvents cfg eg a p = Fetch ?u # rest"
    by blast
  then show ?case by (simp add: fetch_success [OF att])
next
  case (Suc j)
  let ?u = "currentProxy cfg p @ eg"
  let ?tr1 = "tr @ [Fetch ?u]"
  from Suc.prems(3) have "succeeded (tp tr ?u) = None" by simp
  then have att: "tryFetch cfg tp text lang p tr = (None, ?tr1)"
    using g eg by (simp add: tryFetch_eq requestUrl_def)
  have cnt: "length (fetchUrls ?tr1) = Suc (length (fetchUrls tr))"
    by (simp add: fetchUrls_append)
  have H1: "\<forall>tr' u. length (fetchUrls tr') < length (fetchUrls ?tr1) + j \<longrightarrow> succeeded (tp tr' u) = None"
    using Suc.prems(3) cnt by simp
  have H2: "\<forall>tr' u. length (fetchUrls tr') = length (fetchUrls ?tr1) + j \<longrightarrow> succeeded (tp tr' u) = Some b"
    using Suc.prems(4) cnt by simp
  show ?case
  proof (cases "p + 1 < length (PROXY_URLS cfg)")
    case True
    from Suc.prems(2) have "j < length (fetchUrls (ladderEvents cfg eg a (p + 1)))"
      by (simp add: ladder_next [OF True])
    from Suc.IH [OF True this H1 H2] show ?thesis
      by (simp add: fetch_next [OF att True] ladder_next [OF True])
  next
    case last: False
    show ?thesis
    proof (cases "a < RETRY_ATTEMPTS cfg")
      case True
      let ?tr2 = "?tr1 @ [Delay (RETRY_DELAY cfg)]"
      have cnt2: "length (fetchUrls ?tr2) = length (fetchUrls ?tr1)"
        by (simp add: fetchUrls_append)
      from Suc.prems(1) have k: "0 < length (PROXY_URLS cfg)"
        by (cases "PROXY_URLS cfg") simp_all
      from Suc.prems(2) have j: "j < length (fetchUrls (ladderEvents cfg eg (a + 1) 0))"
        by (simp add: ladder_retry [OF Suc.prems(1) last True])
      from Suc.IH [OF k j, of ?tr2] H1 H2 cnt2
      have "fetchAudioWithRetry cfg tp text lang (a + 1) 0 ?tr2 =
              (Inr (Some b), ?tr2 @ uptoFetch (Suc j) (ladderEvents cfg eg (a + 1) 0))"
        by simp
      then show ?thesis
        by (simp add: fetch_retry [OF att last True] ladder_retry [OF Suc.prems(1) last True])
    next
      case False
      with Suc.prems(2) show ?thesis
        by (simp add: ladder_last [OF Suc.prems(1) last False])
    qed
  qed
qed

lemma uri_error_ladder:
  assumes g: "googleUrl cfg text lang = Inl e"
  shows "p < length (PROXY_URLS cfg) \<Longrightarrow>
    fetchAudioWithRetry cfg tp text lang a p tr =
      (Inl e, tr @ replicate (RETRY_ATTEMPTS cfg - a) (Delay (RETRY_DELAY cfg)))"
proof (induction "length (ladderEvents cfg [] a p)" arbitrary: a p tr rule: less_induct)
  case less
  have att: "tryFetch cfg tp text lang p tr = (None, tr)"
    using g by (simp add: tryFetch_eq requestUrl_def)
  show ?case
  proof (cases "p + 1 < length (PROXY_URLS cfg)")
    case True
    have "fetchAudioWithRetry cfg tp text lang a (p + 1) tr =
          (Inl e, tr @ replicate (RETRY_ATTEMPTS cfg - a) (Delay (RETRY_DELAY cfg)))"
      using True by (intro less.hyps) (simp_all add: ladder_next [OF True])
    then show ?thesis by (simp add: fetch_next [OF att True])
  next
    case last: False
    show ?thesis
    proof (cases "a < RETRY_ATTEMPTS cfg")
      case True
      have "fetchAudioWithRetry cfg tp text lang (a + 1) 0 (tr @ [Delay (RETRY_DELAY cfg)]) =
          (Inl e, (tr @ [Delay (RETRY_DELAY cfg)])
                    @ replicate (RETRY_ATTEMPTS cfg - (a + 1)) (Delay (RETRY_DELAY cfg)))"
      proof (intro less.hyps)
        show "length (ladderEvents cfg [] (a + 1) 0) < length (ladderEvents cfg [] a p)"
          by (simp add: ladder_retry [OF less.prems last True])
        from less.prems show "0 < length (PROXY_URLS cfg)" by (cases "PROXY_URLS cfg") simp_all
      qed
      moreover from True have "RETRY_ATTEMPTS cfg - a = Suc (RETRY_ATTEMPTS cfg - (a + 1))"
        by simp
      ultimately show ?thesis
        by (simp add: fetch_retry [OF att last True] replicate_app_Cons_same)
    next
      case False
      then show ?thesis
        by (simp add: fetch_exhausted [OF att last False] g)
    qed
  qed
qed

lemma lead_not_unescaped: "isLeadSurrogate c \<Longrightarrow> \<not> isUnescaped c"
  by (auto simp: isLeadSurrogate_def isUnescaped_def word_le_nat_alt)

lemma lead_not_trail: "isLeadSurrogate c \<Longrightarrow> \<not> isTrailSurrogate c"
  by (auto simp: isLeadSurrogate_def isTrailSurrogate_def word_le_nat_alt)

lemma prepend_error: "prepend r (Inl e) = Inl e"
  by (simp add: prepend_def)

lemma encode_lone_lead:
  "s \<noteq> [] \<Longrightarrow> isLeadSurrogate (last s) \<Longrightarrow> encodeURIComponent s = Inl URIError"
proof (induction s rule: encodeURIComponent.induct)
  case 1
  then show ?case by simp
next
  case (2 c)
  then show ?case by (simp add: lead_not_unescaped)
next
  case (3 c d ds)
  from "3.prems" have l: "isLeadSurrogate (last (d # ds))" by simp
  show ?case
  proof (cases "isUnescaped c")
    case True
    with "3.IH"(1) l show ?thesis by (simp add: prepend_error)
  next
    case nu: False
    show ?thesis
    proof (cases "isTrailSurrogate c")
      case True
      with nu show ?thesis by simp
    next
      case nt: False
      show ?thesis
      proof (cases "isLeadSurrogate c")
        case True
        show ?thesis
        proof (cases "isTrailSurrogate d")
          case td: True
          with l have "ds \<noteq> []" by (auto dest: lead_not_trail)
          with l have "isLeadSurrogate (last ds)" by simp
          with "3.IH"(2) [OF nu nt True td \<open>ds \<noteq> []\<close>] nu nt True td show ?thesis
            by (simp add: prepend_error)
        next
          case False
          with nu nt True show ?thesis by simp
        qed
      next
        case False
        with "3.IH"(3) [OF nu nt False] l nu nt show ?thesis by (simp add: prepend_error)
      qed
    qed
  qed
qed

lemma googleUrl_lone_lead:
  "text \<noteq> [] \<Longrightarrow> isLeadSurrogate (last text) \<Longrightarrow> encodeURIComponent lang = Inr l \<Longrightarrow>
   googleUrl cfg text lang = Inl URIError"
  by (simp add: googleUrl_def encode_lone_lead)

lemma no_break_hard_cut:
  assumes m: "1 \<le> m" and nb: "\<forall>c \<in> set r. c \<noteq> 0x20 \<and> c \<noteq> 0xA"
  shows "findCut r m = m"
proof (rule findCut_hard [OF m])
  show "\<not> (\<exists>j. int j \<le> m \<and> enderAt r j)"
  proof
    assume "\<exists>j. int j \<le> m \<and> enderAt r j"
    then obtain j e where e: "e \<in> set sentenceEnders" "occursAt r e j"
      by (auto simp: enderAt_def)
    from e(1) obtain x y where xy: "e = [x, y]" "y = 0x20 \<or> y = 0xA"
      by (auto simp: sentenceEnders_def)
    from e(2) xy(1) have "take (length e) (drop j r) = [x, y]" by (simp add: occursAt_def)
    then have "y \<in> set (take (length e) (drop j r))" by simp
    then have "y \<in> set r" by (meson in_set_dropD in_set_takeD)
    with nb xy(2) show False by auto
  qed
  show "\<not> (\<exists>j. 1 \<le> j \<and> int j \<le> m \<and> j < length r \<and> r ! j = 0x20)"
    using nb by (metis nth_mem)
qed

lemma emoji_split: "emojiText = emojiChunk @ [0xDE00, 0xD83D, 0xDE00]"
  by code_simp

lemma emoji_length: "length emojiChunk = 200"
  by code_simp

lemma emoji_chunks:
  "chunkText emojiText 200 = Some [emojiChunk, [0xDE00, 0xD83D, 0xDE00]]"
proof -
  have nb: "\<forall>c \<in> set emojiText. c \<noteq> 0x20 \<and> c \<noteq> 0xA"
    by (simp add: emojiText_def)
  have "trimmed emojiText"
    by (simp add: trimmed_def emoji_split isWhiteSpace_def) (simp add: emojiChunk_def isWhiteSpace_def)
  then have t: "trim emojiText = emojiText" by (rule trim_id)
  have len: "(200::int) < int (length emojiText)" by (simp add: emoji_split emoji_length)
  have cut: "findCut emojiText 200 = 200" by (rule no_break_hard_cut [OF _ nb]) simp
  have tk: "take 200 emojiText = emojiChunk" "drop 200 emojiText = [0xDE00, 0xD83D, 0xDE00]"
    by (simp_all add: emoji_split emoji_length)
  have "trimmed emojiChunk" by (simp add: trimmed_def emojiChunk_def isWhiteSpace_def)
  then have tc: "trim emojiChunk = emojiChunk" by (rule trim_id)
  have tr: "trim [0xDE00, 0xD83D, 0xDE00] = [0xDE00, 0xD83D, 0xDE00]"
    by (simp add: trim_def isWhiteSpace_def)
  have "chunkLoop emojiText 200 [] = chunkLoop [0xDE00, 0xD83D, 0xDE00] 200 [emojiChunk]"
    using chunkLoop_step [OF _ len, of "[]"] by (simp add: cut tk tc tr)
  also have "\<dots> = Some [emojiChunk, [0xDE00, 0xD83D, 0xDE00]]"
    by (simp add: chunkLoop_last)
  finally show ?thesis by (simp add: chunkText_def t)
qed

lemma emoji_chunk_lone: "emojiChunk \<noteq> [] \<and> isLeadSurrogate (last emojiChunk)"
  by (simp add: emojiChunk_def isLeadSurrogate_def)

lemma failed_iff: "failed out \<longleftrightarrow> succeeded out = None"
  by (cases out) (auto split: option.splits)

lemma succeeded_nonempty: "succeeded out = Some b \<Longrightarrow> b \<noteq> []"
  by (cases out) (auto split: if_splits option.splits)

lemma succeeded_alike:
  "out1 = out2 \<or> (failed out1 \<and> failed out2) \<Longrightarrow> succeeded out1 = succeeded out2"
  by (auto simp: failed_iff)

lemma tryFetch_trace:
  assumes "tryFetch cfg tp chunk lang p tr = (x, y)"
  shows "saved y = saved tr \<and> opened y = opened tr \<and> notices y = notices tr \<and>
         (\<forall>b. x = Some b \<longrightarrow> b \<noteq> [] \<and>
            (\<exists>u. requestUrl cfg chunk lang p = Some u \<and> succeeded (tp tr u) = Some b))"
proof (cases "requestUrl cfg chunk lang p")
  case None
  with assms show ?thesis by (simp add: tryFetch_eq)
next
  case (Some u)
  with assms have "x = succeeded (tp tr u)" "y = tr @ [Fetch u]" by (simp_all add: tryFetch_eq)
  with Some show ?thesis
    by (auto simp: saved_append opened_append notices_append dest: succeeded_nonempty)
qed

lemma fetch_trace:
  "fetchAudioWithRetry cfg tp chunk lang a p tr = (res, tr') \<Longrightarrow>
   saved tr' = saved tr \<and>
   (\<forall>b. res = Inr (Some b) \<longrightarrow> opened tr' = opened tr \<and> notices tr' = notices tr \<and> b \<noteq> [] \<and>
      (\<exists>tr0 u q. requestUrl cfg chunk lang q = Some u \<and> succeeded (tp tr0 u) = Some b))"
proof (induction cfg tp chunk lang a p tr arbitrary: res tr' rule: fetchAudioWithRetry.induct)
  case (1 cfg tp chunk lang a p tr)
  obtain x y where xy: "tryFetch cfg tp chunk lang p tr = (x, y)"
    by (cases "tryFetch cfg tp chunk lang p tr")
  note T = tryFetch_trace [OF xy]
  show ?case
  proof (cases x)
    case (Some b0)
    with xy "1.prems" have "res = Inr (Some b0)" "tr' = y" by (simp_all add: fetch_success)
    with T Some show ?thesis by blast
  next
    case None
    note att = xy [unfolded None]
    show ?thesis
    proof (cases "p + 1 < length (PROXY_URLS cfg)")
      case True
      from "1.prems" have "fetchAudioWithRetry cfg tp chunk lang a (p + 1) y = (res, tr')"
        by (simp add: fetch_next [OF att True])
      from "1.IH"(1) [OF xy [symmetric] None refl True this] T show ?thesis by simp
    next
      case last: False
      show ?thesis
      proof (cases "a < RETRY_ATTEMPTS cfg")
        case True
        from "1.prems" have "fetchAudioWithRetry cfg tp chunk lang (a + 1) 0
               (y @ [Delay (RETRY_DELAY cfg)]) = (res, tr')"
          by (simp add: fetch_retry [OF att last True])
        from "1.IH"(2) [OF xy [symmetric] None refl last True this] T show ?thesis
          by (simp add: saved_append opened_append notices_append)
      next
        case False
        from "1.prems" fetch_exhausted [OF att last False]
        have "(res, tr') = (case googleUrl cfg chunk lang of
                Inl e \<Rightarrow> (Inl e, y)
              | Inr g \<Rightarrow> (Inr None, y @ [WindowOpen g] @ showError ManualFallback))" by simp
        with T show ?thesis
          by (auto simp: saved_append showError_def split: sum.splits)
      qed
    qed
  qed
qed

lemma transport_alike:
  assumes "\<forall>tr u. succeeded (tp tr u) = succeeded (tp2 tr u)"
  shows "fetchAudioWithRetry cfg tp chunk lang a p tr = fetchAudioWithRetry cfg tp2 chunk lang a p tr"
  using assms
proof (induction cfg tp chunk lang a p tr rule: fetchAudioWithRetry.induct)
  case (1 cfg tp chunk lang a p tr)
  obtain x y where xy: "tryFetch cfg tp chunk lang p tr = (x, y)"
    by (cases "tryFetch cfg tp chunk lang p tr")
  from "1.prems" have same: "tryFetch cfg tp2 chunk lang p tr = (x, y)"
    using xy by (auto simp: tryFetch_eq split: option.splits)
  show ?case
  proof (cases x)
    case (Some b0)
    with xy same show ?thesis by (simp add: fetch_success)
  next
    case None
    note att = xy [unfolded None] and att2 = same [unfolded None]
    show ?thesis
    proof (cases "p + 1 < length (PROXY_URLS cfg)")
      case True
      from "1.IH"(1) [OF xy [symmetric] None refl True "1.prems"] show ?thesis
        by (simp add: fetch_next [OF att True] fetch_next [OF att2 True])
    next
      case last: False
      show ?thesis
      proof (cases "a < RETRY_ATTEMPTS cfg")
        case True
        from "1.IH"(2) [OF xy [symmetric] None refl last True "1.prems"] show ?thesis
          by (simp add: fetch_retry [OF att last True] fetch_retry [OF att2 last True])
      next
        case False
        show ?thesis
          by (simp add: fetch_exhausted [OF att last False] fetch_exhausted [OF att2 last False])
      qed
    qed
  qed
qed

section \<open>Facts about the export loop\<close>

lemma export_done:
  "\<not> i < length chunks \<Longrightarrow> exportLoop cfg tp chunks sl i blobs tr = (Inr blobs, tr)"
  by (subst exportLoop.simps) simp

lemma export_skip:
  "i < length chunks \<Longrightarrow> trim (chunks ! i) = [] \<Longrightarrow>
   exportLoop cfg tp chunks sl i blobs tr = exportLoop cfg tp chunks sl (i + 1) blobs tr"
  by (subst exportLoop.simps) (simp add: Let_def)

lemma export_fetch:
  "i < length chunks \<Longrightarrow> trim (chunks ! i) \<noteq> [] \<Longrightarrow>
   fetchAudioWithRetry cfg tp (chunks ! i) sl 1 0
     (tr @ [UpdateStatus (ProcessingChunk (i + 1) (length chunks)) True]) = (r, tr2) \<Longrightarrow>
   exportLoop cfg tp chunks sl i blobs tr =
     (case r of
        Inl e \<Rightarrow> (Inl e, tr2)
      | Inr None \<Rightarrow> (Inl (ChunkFailed (i + 1)), tr2)
      | Inr (Some b) \<Rightarrow>
          exportLoop cfg tp chunks sl (i + 1) (blobs @ [b])
            (if i < length chunks - 1 then tr2 @ [Delay 500] else tr2))"
  by (subst exportLoop.simps) (simp add: Let_def split: sum.splits option.splits)

lemma export_trace:
  "exportLoop cfg tp chunks sl i blobs tr = (res, tr') \<Longrightarrow>
    saved tr' = saved tr \<and>
    (\<forall>bs. res = Inr bs \<longrightarrow> opened tr' = opened tr \<and> notices tr' = notices tr \<and>
       (\<exists>new. bs = blobs @ new \<and>
          list_all2 (\<lambda>c b. b \<noteq> [] \<and>
               (\<exists>tr0 u q. requestUrl cfg c sl q = Some u \<and> succeeded (tp tr0 u) = Some b))
            [c \<leftarrow> drop i chunks. trim c \<noteq> []] new))"
proof (induction "length chunks - i" arbitrary: i blobs tr rule: less_induct)
  case less
  show ?case
  proof (cases "i < length chunks")
    case False
    with less.prems show ?thesis by (auto simp: export_done)
  next
    case True
    then have dr: "drop i chunks = chunks ! i # drop (i + 1) chunks"
      by (simp add: Cons_nth_drop_Suc)
    from True have m: "length chunks - (i + 1) < length chunks - i" by simp
    show ?thesis
    proof (cases "trim (chunks ! i) = []")
      case blank: True
      from less.prems have "exportLoop cfg tp chunks sl (i + 1) blobs tr = (res, tr')"
        by (simp add: export_skip [OF True blank])
      from less.hyps [OF m this] blank show ?thesis by (simp add: dr)
    next
      case nb: False
      let ?tr1 = "tr @ [UpdateStatus (ProcessingChunk (i + 1) (length chunks)) True]"
      obtain r tr2 where f: "fetchAudioWithRetry cfg tp (chunks ! i) sl 1 0 ?tr1 = (r, tr2)"
        by (cases "fetchAudioWithRetry cfg tp (chunks ! i) sl 1 0 ?tr1")
      note F = fetch_trace [OF f]
      note E = export_fetch [OF True nb f, of blobs]
      show ?thesis
      proof (cases r)
        case (Inl e)
        with E less.prems F show ?thesis by (auto simp: saved_append)
      next
        case (Inr ob)
        show ?thesis
        proof (cases ob)
          case None
          with Inr E less.prems F show ?thesis by (auto simp: saved_append)
        next
          case (Some b)
          let ?tr3 = "if i < length chunks - 1 then tr2 @ [Delay 500] else tr2"
          from Inr Some E less.prems
          have run: "exportLoop cfg tp chunks sl (i + 1) (blobs @ [b]) ?tr3 = (res, tr')" by simp
          from F Inr Some have b: "saved tr2 = saved tr" "opened tr2 = opened tr"
            "notices tr2 = notices tr" "b \<noteq> []"
            by (simp_all add: saved_append opened_append notices_append)
          from F Inr Some have org:
            "\<exists>tr0 u q. requestUrl cfg (chunks ! i) sl q = Some u \<and> succeeded (tp tr0 u) = Some b"
            by simp
          have t3: "saved ?tr3 = saved tr" "opened ?tr3 = opened tr" "notices ?tr3 = notices tr"
            using b by (simp_all add: saved_append opened_append notices_append)
          from less.hyps [OF m run] t3 have s: "saved tr' = saved tr" by simp
          have "opened tr' = opened tr \<and> notices tr' = notices tr \<and>
             (\<exists>new. bs = blobs @ new \<and>
                list_all2 (\<lambda>c b. b \<noteq> [] \<and>
                     (\<exists>tr0 u q. requestUrl cfg c sl q = Some u \<and> succeeded (tp tr0 u) = Some b))
                  [c \<leftarrow> drop i chunks. trim c \<noteq> []] new)" if res: "res = Inr bs" for bs
          proof -
            from less.hyps [OF m run] res t3 obtain new where
              n: "opened tr' = opened tr" "notices tr' = notices tr" "bs = (blobs @ [b]) @ new"
              "list_all2 (\<lambda>c b. b \<noteq> [] \<and>
                     (\<exists>tr0 u q. requestUrl cfg c sl q = Some u \<and> succeeded (tp tr0 u) = Some b))
                  [c \<leftarrow> drop (i + 1) chunks. trim c \<noteq> []] new" by auto
            from n(4) nb b(4) org
            have "list_all2 (\<lambda>c b. b \<noteq> [] \<and>
                     (\<exists>tr0 u q. requestUrl cfg c sl q = Some u \<and> succeeded (tp tr0 u) = Some b))
                  [c \<leftarrow> drop i chunks. trim c \<noteq> []] (b # new)" by (simp add: dr)
            moreover from n(3) have "bs = blobs @ (b # new)" by simp
            ultimately show ?thesis using n(1,2) by blast
          qed
          with s show ?thesis by blast
        qed
      qed
    qed
  qed
qed

lemma list_all2_map_eq: "list_all2 (\<lambda>c b. b = f c) xs ys \<Longrightarrow> ys = map f xs"
  by (induction xs ys rule: list_all2_induct) simp_all

lemma export_audio:
  assumes audio: "\<forall>c \<in> set chunks. \<forall>q tr0 u b.
      requestUrl cfg c sl q = Some u \<and> succeeded (tp tr0 u) = Some b \<longrightarrow> b = audio c"
    and run: "exportLoop cfg tp chunks sl 0 [] tr = (Inr bs, tr')"
  shows "bs = map audio [c \<leftarrow> chunks. trim c \<noteq> []]"
proof -
  let ?R = "\<lambda>c b. b \<noteq> [] \<and>
     (\<exists>tr0 u q. requestUrl cfg c sl q = Some u \<and> succeeded (tp tr0 u) = Some b)"
  from export_trace [OF run] have l: "list_all2 ?R [c \<leftarrow> chunks. trim c \<noteq> []] bs" by simp
  have "list_all2 (\<lambda>c b. b = audio c) [c \<leftarrow> chunks. trim c \<noteq> []] bs"
  proof (rule list.rel_mono_strong [OF l])
    fix c b
    assume "c \<in> set [c \<leftarrow> chunks. trim c \<noteq> []]" "b \<in> set bs" "?R c b"
    with audio show "b = audio c" by auto
  qed
  then show ?thesis by (rule list_all2_map_eq)
qed

lemma trail_not_unescaped: "isTrailSurrogate c \<Longrightarrow> \<not> isUnescaped c"
  by (auto simp: isTrailSurrogate_def isUnescaped_def word_le_nat_alt)

lemma prepend_Inr: "prepend r rest = Inr q \<Longrightarrow> \<exists>q'. rest = Inr q' \<and> q = r @ q'"
  by (cases rest) (simp_all add: prepend_def)

lemma encode_last:
  "encodeURIComponent s = Inr q \<Longrightarrow> s \<noteq> [] \<Longrightarrow> isUnescaped (last s) \<Longrightarrow>
   q \<noteq> [] \<and> last q = last s"
proof (induction s arbitrary: q rule: encodeURIComponent.induct)
  case 1
  then show ?case by simp
next
  case (2 c)
  then show ?case by auto
next
  case (3 c d ds)
  from "3.prems" have l: "isUnescaped (last (d # ds))" by simp
  show ?case
  proof (cases "isUnescaped c")
    case True
    with "3.prems"(1) obtain q' where q': "encodeURIComponent (d # ds) = Inr q'" "q = [c] @ q'"
      by (auto dest: prepend_Inr)
    from "3.IH"(1) [OF True q'(1) _ l] q'(2) show ?thesis by simp
  next
    case nu: False
    show ?thesis
    proof (cases "isTrailSurrogate c")
      case True
      with nu "3.prems"(1) show ?thesis by simp
    next
      case nt: False
      show ?thesis
      proof (cases "isLeadSurrogate c")
        case True
        show ?thesis
        proof (cases "isTrailSurrogate d")
          case td: True
          with l have ne: "ds \<noteq> []" by (auto dest: trail_not_unescaped)
          with l have l': "isUnescaped (last ds)" by simp
          from nu nt True td "3.prems"(1) obtain q' where
            q': "encodeURIComponent ds = Inr q'"
                "q = percentEncode (utf8 (pairToCodePoint c d)) @ q'"
            by (auto dest: prepend_Inr)
          from "3.IH"(2) [OF nu nt True td q'(1) ne l'] q'(2) ne show ?thesis by simp
        next
          case False
          with nu nt True "3.prems"(1) show ?thesis by simp
        qed
      next
        case False
        with nu nt "3.prems"(1) obtain q' where
          q': "encodeURIComponent (d # ds) = Inr q'" "q = percentEncode (utf8 (unat c)) @ q'"
          by (auto dest: prepend_Inr)
        from "3.IH"(3) [OF nu nt False q'(1) _ l] q'(2) show ?thesis by simp
      qed
    qed
  qed
qed

lemma requestUrl_last:
  assumes "requestUrl cfg c sl q = Some u" and "c \<noteq> []" and "isUnescaped (last c)"
  shows "last u = last c"
proof -
  from assms(1) obtain g eg where g: "googleUrl cfg c sl = Inr g"
    and eg: "encodeURIComponent g = Inr eg" and u: "u = currentProxy cfg q @ eg"
    by (auto simp: requestUrl_def split: sum.splits)
  from g obtain el ec where ec: "encodeURIComponent c = Inr ec"
    and gd: "g = TTS_BASE_URL cfg @ js ''?ie=UTF-8&tl='' @ el @ js ''&client=tw-ob&q='' @ ec"
    by (auto simp: googleUrl_def split: sum.splits)
  from encode_last [OF ec assms(2,3)] have c: "ec \<noteq> []" "last ec = last c" by simp_all
  with gd have "g \<noteq> []" "last g = last c" by simp_all
  with encode_last [OF eg] assms(3) have "eg \<noteq> []" "last eg = last c" by simp_all
  with u show ?thesis by simp
qed

lemma long_export_shape:
  assumes run: "handleLongExport cfg tp txt lang format tr = Some tr'"
    and chunks: "chunkText txt (CHUNK_SIZE cfg) = Some chunks"
  shows "(\<exists>pre bs. tr' = pre @ [SaveFile (concat bs) format, UpdateStatus DownloadComplete False] \<and>
            exportLoop cfg tp chunks (shortLangOf lang) 0 [] (tr @ [UpdateStatus ProcessingLong True])
              = (Inr bs, pre) \<and>
            saved pre = saved tr \<and> opened pre = opened tr \<and> notices pre = notices tr) \<or>
         (\<exists>pre e. tr' = pre @ [UpdateStatus StatusError False, UpdateStatus StatusError False,
                                Notify LongFailed] \<and>
            exportLoop cfg tp chunks (shortLangOf lang) 0 [] (tr @ [UpdateStatus ProcessingLong True])
              = (Inl e, pre) \<and>
            saved pre = saved tr)"
proof -
  let ?tr0 = "tr @ [UpdateStatus ProcessingLong True]"
  obtain res pre where e: "exportLoop cfg tp chunks (shortLangOf lang) 0 [] ?tr0 = (res, pre)"
    by (cases "exportLoop cfg tp chunks (shortLangOf lang) 0 [] ?tr0")
  note T = export_trace [OF e]
  show ?thesis
  proof (cases res)
    case (Inl err)
    with run chunks e have "tr' = pre @ [UpdateStatus StatusError False,
        UpdateStatus StatusError False, Notify LongFailed]"
      by (simp add: handleLongExport_def Let_def showError_def)
    with T Inl e show ?thesis by (simp add: saved_append)
  next
    case (Inr bs)
    with run chunks e have "tr' = pre @ [SaveFile (concat bs) format,
        UpdateStatus DownloadComplete False]"
      by (simp add: handleLongExport_def Let_def downloadBlob_def)
    with T Inr e show ?thesis by (simp add: saved_append opened_append notices_append)
  qed
qed

lemma CONFIG_simps:
  "length (PROXY_URLS CONFIG) = 3" "RETRY_ATTEMPTS CONFIG = 2" "RETRY_DELAY CONFIG = 1000"
  "CHUNK_SIZE CONFIG = 200"
  by (simp_all add: CONFIG_def)

section \<open>Facts about the encoded URLs and the exhausted ladder\<close>

lemma ascii_not_surrogate: "c < 0x80 \<Longrightarrow> \<not> isLeadSurrogate c \<and> \<not> isTrailSurrogate c"
  by (auto simp: isLeadSurrogate_def isTrailSurrogate_def word_le_nat_alt word_less_nat_alt)

lemma unescaped_ascii: "isUnescaped c \<Longrightarrow> c < 0x80"
  by (auto simp: isUnescaped_def word_le_nat_alt word_less_nat_alt)

lemma hexDigit_ascii: "d < 16 \<Longrightarrow> hexDigit d < 0x80"
proof -
  assume "d < 16"
  then have "d \<in> set [0..<16]" by simp
  then show ?thesis by (simp add: upt_conv_Cons hexDigit_def) (elim disjE; simp)
qed

lemma utf8_octets: "cp < 0x110000 \<Longrightarrow> \<forall>b \<in> set (utf8 cp). b < 256"
  by (auto simp: utf8_def)

lemma percentEncode_ascii: "\<forall>b \<in> set octets. b < 256 \<Longrightarrow> asciiOnly (percentEncode octets)"
proof -
  assume a: "\<forall>b \<in> set octets. b < 256"
  have "hexDigit (b div 16) < 0x80 \<and> hexDigit (b mod 16) < 0x80" if "b \<in> set octets" for b
  proof -
    from a that have "b div 16 < 16" by auto
    then show ?thesis by (simp add: hexDigit_ascii)
  qed
  then show ?thesis by (auto simp: asciiOnly_def percentEncode_def)
qed

lemma unit_codepoint: "unat (c :: 16 word) < 0x110000"
proof -
  have "unat c < 2 ^ LENGTH(16)" by (rule unsigned_less)
  then show ?thesis by simp
qed

lemma pair_codepoint:
  "isLeadSurrogate c \<Longrightarrow> isTrailSurrogate d \<Longrightarrow> pairToCodePoint c d < 0x110000"
  by (auto simp: isLeadSurrogate_def isTrailSurrogate_def pairToCodePoint_def word_le_nat_alt)

lemma asciiOnly_append: "asciiOnly (xs @ ys) \<longleftrightarrow> asciiOnly xs \<and> asciiOnly ys"
  by (auto simp: asciiOnly_def)

lemma encode_ascii: "encodeURIComponent s = Inr q \<Longrightarrow> asciiOnly q"
proof (induction s arbitrary: q rule: encodeURIComponent.induct)
  case 1
  then show ?case by (simp add: asciiOnly_def)
next
  case (2 c)
  then show ?case
    by (auto simp: asciiOnly_def unescaped_ascii split: if_splits
          dest!: percentEncode_ascii [OF utf8_octets [OF unit_codepoint], unfolded asciiOnly_def, rule_format])
next
  case (3 c d ds)
  show ?case
  proof (cases "isUnescaped c")
    case True
    with "3.prems" obtain q' where q': "encodeURIComponent (d # ds) = Inr q'" "q = [c] @ q'"
      by (auto dest: prepend_Inr)
    from "3.IH"(1) [OF True q'(1)] q'(2) True show ?thesis
      by (simp add: asciiOnly_def unescaped_ascii)
  next
    case nu: False
    show ?thesis
    proof (cases "isTrailSurrogate c")
      case True
      with nu "3.prems" show ?thesis by simp
    next
      case nt: False
      show ?thesis
      proof (cases "isLeadSurrogate c")
        case True
        show ?thesis
        proof (cases "isTrailSurrogate d")
          case td: True
          from nu nt True td "3.prems" obtain q' where
            q': "encodeURIComponent ds = Inr q'"
                "q = percentEncode (utf8 (pairToCodePoint c d)) @ q'"
            by (auto dest: prepend_Inr)
          from "3.IH"(2) [OF nu nt True td q'(1)] q'(2)
            percentEncode_ascii [OF utf8_octets [OF pair_codepoint [OF True td]]]
          show ?thesis by (simp add: asciiOnly_append)
        next
          case False
          with nu nt True "3.prems" show ?thesis by simp
        qed
      next
        case False
        with nu nt "3.prems" obtain q' where
          q': "encodeURIComponent (d # ds) = Inr q'" "q = percentEncode (utf8 (unat c)) @ q'"
          by (auto dest: prepend_Inr)
        from "3.IH"(3) [OF nu nt False q'(1)] q'(2)
          percentEncode_ascii [OF utf8_octets [OF unit_codepoint]]
        show ?thesis by (simp add: asciiOnly_append)
      qed
    qed
  qed
qed

lemma ascii_encodes: "asciiOnly s \<Longrightarrow> \<exists>q. encodeURIComponent s = Inr q"
proof (induction s rule: encodeURIComponent.induct)
  case 1
  then show ?case by simp
next
  case (2 c)
  then show ?case by (auto simp: asciiOnly_def dest: ascii_not_surrogate)
next
  case (3 c d ds)
  from "3.prems" have c: "\<not> isLeadSurrogate c" "\<not> isTrailSurrogate c"
    and rest: "asciiOnly (d # ds)"
    by (auto simp: asciiOnly_def dest: ascii_not_surrogate)
  show ?case
  proof (cases "isUnescaped c")
    case True
    from "3.IH"(1) [OF True rest] True show ?thesis by (auto simp: prepend_def)
  next
    case False
    from "3.IH"(3) [OF False c(2) c(1) rest] False c show ?thesis by (auto simp: prepend_def)
  qed
qed

lemma googleUrl_encodes:
  assumes "googleUrl cfg chunk lang = Inr g" and "asciiOnly (TTS_BASE_URL cfg)"
  shows "\<exists>eg. encodeURIComponent g = Inr eg"
proof -
  from assms(1) obtain el ec where "encodeURIComponent lang = Inr el" "encodeURIComponent chunk = Inr ec"
    and gd: "g = TTS_BASE_URL cfg @ js ''?ie=UTF-8&tl='' @ el @ js ''&client=tw-ob&q='' @ ec"
    by (auto simp: googleUrl_def split: sum.splits)
  then have "asciiOnly el" "asciiOnly ec" by (auto dest: encode_ascii)
  moreover have "asciiOnly (js ''?ie=UTF-8&tl='')" "asciiOnly (js ''&client=tw-ob&q='')"
    by code_simp+
  ultimately have "asciiOnly g" using assms(2) by (simp add: gd asciiOnly_append)
  then show ?thesis by (rule ascii_encodes)
qed

lemma CONFIG_base_ascii: "asciiOnly (TTS_BASE_URL CONFIG)"
  by code_simp

lemma ladder_notices: "notices (ladderEvents cfg eg a p) = []"
proof -
  have 1: "notices (map (\<lambda>q. Fetch (f q)) qs) = []" for f :: "nat \<Rightarrow> jsstring" and qs
    by (induction qs) simp_all
  have 2: "notices (concat (map (\<lambda>a. Delay d # map (\<lambda>q. Fetch (f q)) qs) as)) = []"
    for f :: "nat \<Rightarrow> jsstring" and qs d and as :: "nat list"
    by (induction as) (simp_all add: notices_append 1)
  show ?thesis by (simp add: ladderEvents_def passEvents_def notices_append 1 2)
qed

lemma exhausted_after_all_rungs:
  assumes g: "googleUrl cfg chunk lang = Inr g" and eg: "encodeURIComponent g = Inr eg"
    and fail: "\<forall>tr' u. failed (tp tr' u)"
    and k: "0 < length (PROXY_URLS cfg)" and r: "1 \<le> RETRY_ATTEMPTS cfg"
  shows "\<exists>tr'. fetchAudioWithRetry cfg tp chunk lang 1 0 tr = (Inr None, tr') \<and>
           length (fetchUrls tr') =
             length (fetchUrls tr) + length (PROXY_URLS cfg) * RETRY_ATTEMPTS cfg \<and>
           opened tr' = opened tr @ [g] \<and>
           notices tr' = notices tr @ [ManualFallback]"
proof -
  from fail have f: "\<forall>tr' u. succeeded (tp tr' u) = None" by (simp add: failed_iff)
  have run: "fetchAudioWithRetry cfg tp chunk lang 1 0 tr =
      (Inr None, tr @ ladderEvents cfg eg 1 0 @ [WindowOpen g] @ showError ManualFallback)"
    by (rule all_fail_ladder [OF g eg f k])
  from r obtain n where n: "RETRY_ATTEMPTS cfg = Suc n" by (cases "RETRY_ATTEMPTS cfg") simp_all
  have "length (fetchUrls (ladderEvents cfg eg 1 0)) = length (PROXY_URLS cfg) * RETRY_ATTEMPTS cfg"
    by (simp add: ladder_count n)
  with run show ?thesis
    by (simp add: fetchUrls_append opened_append notices_append ladder_opened ladder_notices
          showError_def)
qed

lemma exhausted_after_six:
  assumes g: "googleUrl CONFIG chunk lang = Inr g" and fail: "\<forall>tr' u. failed (tp tr' u)"
  shows "\<exists>tr'. fetchAudioWithRetry CONFIG tp chunk lang 1 0 tr = (Inr None, tr') \<and>
           length (fetchUrls tr') = length (fetchUrls tr) + 6 \<and>
           opened tr' = opened tr @ [g] \<and>
           notices tr' = notices tr @ [ManualFallback]"
proof -
  from googleUrl_encodes [OF g CONFIG_base_ascii] obtain eg where
    eg: "encodeURIComponent g = Inr eg" ..
  from exhausted_after_all_rungs [OF g eg fail, of tr] show ?thesis
    by (simp add: CONFIG_simps)
qed

lemma second_attempt_succeeds:
  assumes f1: "tryFetch cfg tp chunk lang p tr = (None, tr1)"
    and f2: "tryFetch cfg tp chunk lang (p + 1) tr1 = (Some b, tr2)"
    and nx: "p + 1 < length (PROXY_URLS cfg)"
  shows "fetchAudioWithRetry cfg tp chunk lang a p tr = (Inr (Some b), tr2) \<and>
         (\<exists>u1 u2. requestUrl cfg chunk lang p = Some u1 \<and>
                  requestUrl cfg chunk lang (p + 1) = Some u2 \<and>
                  tr2 = tr @ [Fetch u1, Fetch u2])"
proof -
  from f2 obtain u2 where u2: "requestUrl cfg chunk lang (p + 1) = Some u2"
    "tr2 = tr1 @ [Fetch u2]"
    by (auto simp: tryFetch_eq split: option.splits)
  then obtain u1 where u1: "requestUrl cfg chunk lang p = Some u1"
    by (auto simp: requestUrl_def split: sum.splits)
  with f1 have "tr1 = tr @ [Fetch u1]" by (simp add: tryFetch_eq)
  with u1 u2 have "\<exists>u1 u2. requestUrl cfg chunk lang p = Some u1 \<and>
                  requestUrl cfg chunk lang (p + 1) = Some u2 \<and>
                  tr2 = tr @ [Fetch u1, Fetch u2]" by simp
  moreover have "fetchAudioWithRetry cfg tp chunk lang a p tr = (Inr (Some b), tr2)"
    using fetch_next [OF f1 nx, of a] fetch_success [OF f2, of a] by simp
  ultimately show ?thesis by blast
qed

section \<open>Facts about the timer and the sample request\<close>

lemma awaitFetch_failed: "failedReply (net tr u) \<longleftrightarrow> succeeded (awaitFetch net tr u) = None"
  by (cases "net tr u") (auto simp: awaitFetch_def split: option.splits)

lemma awaitFetch_rejects:
  "net tr u = Rejects ms \<Longrightarrow> succeeded (awaitFetch net tr u) = None"
  by (simp add: awaitFetch_def)

lemma awaitFetch_resolves_failed:
  "net tr u = Resolves ms status bodyMs body \<Longrightarrow>
   10000 \<le> ms \<or> \<not> (200 \<le> status \<and> status \<le> 299) \<or> body = Some [] \<Longrightarrow>
   succeeded (awaitFetch net tr u) = None"
  by (auto simp: awaitFetch_def)

lemma failed_attempt_step:
  assumes att: "tryFetch cfg tp chunk lang p tr = (None, tr1)"
    and g: "googleUrl cfg chunk lang = Inr g"
  shows "fetchAudioWithRetry cfg tp chunk lang a p tr =
        (if p + 1 < length (PROXY_URLS cfg)
         then fetchAudioWithRetry cfg tp chunk lang a (p + 1) tr1
         else if a < RETRY_ATTEMPTS cfg
         then fetchAudioWithRetry cfg tp chunk lang (a + 1) 0 (tr1 @ [Delay (RETRY_DELAY cfg)])
         else (Inr None, tr1 @ [WindowOpen g] @ showError ManualFallback))"
proof (cases "p + 1 < length (PROXY_URLS cfg)")
  case True
  then show ?thesis by (simp add: fetch_next [OF att True])
next
  case last: False
  show ?thesis
  proof (cases "a < RETRY_ATTEMPTS cfg")
    case True
    with last show ?thesis by (simp add: fetch_retry [OF att last True])
  next
    case False
    with last show ?thesis by (simp add: fetch_exhausted [OF att last False] g)
  qed
qed

lemma hi_target: "googleUrl CONFIG (js ''Hi'') (js ''en'') = Inr hiTarget"
  by code_simp

lemma hi_encoded: "encodeURIComponent hiTarget = Inr hiEncoded"
  by code_simp

lemma hi_request:
  "requestUrl CONFIG (js ''Hi'') (js ''en'') 0 =
     Some (js ''https://api.allorigins.win/raw?url='' @ hiEncoded)"
  by (simp add: requestUrl_def hi_target hi_encoded) (simp add: currentProxy_def CONFIG_def)

lemma hi_ladder:
  "ladderEvents CONFIG hiEncoded (Suc 0) 0 =
     [Fetch (js ''https://api.allorigins.win/raw?url='' @ hiEncoded),
      Fetch (js ''https://corsproxy.io/?'' @ hiEncoded),
      Fetch (js ''https://api.codetabs.com/v1/proxy?quest='' @ hiEncoded),
      Delay 1000,
      Fetch (js ''https://api.allorigins.win/raw?url='' @ hiEncoded),
      Fetch (js ''https://corsproxy.io/?'' @ hiEncoded),
      Fetch (js ''https://api.codetabs.com/v1/proxy?quest='' @ hiEncoded)]"
  by (simp add: ladderEvents_def passEvents_def CONFIG_simps upt_conv_Cons currentProxy_def)
     (simp add: CONFIG_def)

section \<open>The claims about chunkText\<close>

text \<open>
  Claim C1. For every text and every bound \<open>maxSize > 0\<close>, \<open>chunkText\<close> returns chunks
  that, written in sequence order with a run of white space (possibly empty) between
  consecutive chunks, give exactly the trimmed text: no code unit other than boundary white
  space is dropped, duplicated or reordered.
\<close>

theorem chunkText_reassembles:
  assumes "0 < maxSize"
  shows "\<exists>chunks seps. chunkText text maxSize = Some chunks \<and>
           length seps = length chunks - 1 \<and>
           (\<forall>w \<in> set seps. \<forall>c \<in> set w. isWhiteSpace c) \<and>
           weave chunks seps = trim text"
proof -
  from assms have "1 \<le> maxSize" by simp
  from chunkLoop_weave [OF this trimmed_trim, of "text" "[]"] show ?thesis
    by (simp add: chunkText_def)
qed

theorem chunkText_reassembles_witness:
  "(0::int) < 12 \<and>
   chunkText sampleText 12 = Some [js ''Hello world.'', js ''This is it!'', js ''ok now''] \<and>
   weave [js ''Hello world.'', js ''This is it!'', js ''ok now''] [js ''  '', js ''  '']
     = trim sampleText \<and>
   (\<exists>chunks seps. chunkText sampleText 12 = Some chunks \<and>
       length seps = length chunks - 1 \<and>
       (\<forall>w \<in> set seps. \<forall>c \<in> set w. isWhiteSpace c) \<and>
       weave chunks seps = trim sampleText)"
proof -
  have "chunkText sampleText 12 = Some [js ''Hello world.'', js ''This is it!'', js ''ok now'']"
    "weave [js ''Hello world.'', js ''This is it!'', js ''ok now''] [js ''  '', js ''  '']
       = trim sampleText"
    by code_simp+
  with chunkText_reassembles [of 12 sampleText] show ?thesis by simp
qed

text \<open>
  Claim C9. For every text and every \<open>maxSize \<ge> 1\<close>, \<open>chunkText\<close> returns a list of
  chunks. An iteration of its loop on a non-empty remainder that fits emits the whole
  remainder and stops; an iteration on a longer remainder continues with a strictly shorter
  one.
\<close>

theorem chunkText_terminates:
  assumes "1 \<le> maxSize"
  shows "(\<exists>chunks. chunkText text maxSize = Some chunks) \<and>
         (\<forall>remaining chunks. 0 < length remaining \<and> int (length remaining) \<le> maxSize \<longrightarrow>
            chunkLoop remaining maxSize chunks = Some (chunks @ [remaining])) \<and>
         (\<forall>remaining chunks. maxSize < int (length remaining) \<longrightarrow>
            chunkLoop remaining maxSize chunks =
              chunkLoop (trim (substringFrom remaining (findCut remaining maxSize))) maxSize
                (chunks @ [trim (substring remaining 0 (findCut remaining maxSize))]) \<and>
            length (trim (substringFrom remaining (findCut remaining maxSize))) < length remaining)"
proof (intro conjI allI impI)
  from chunkLoop_total [OF assms, of "trim text" "[]"]
  show "\<exists>chunks. chunkText text maxSize = Some chunks" by (simp add: chunkText_def)
next
  fix remaining :: jsstring and chunks :: "jsstring list"
  assume "0 < length remaining \<and> int (length remaining) \<le> maxSize"
  then show "chunkLoop remaining maxSize chunks = Some (chunks @ [remaining])"
    by (simp add: chunkLoop_last)
next
  fix remaining :: jsstring and chunks :: "jsstring list"
  assume gt: "maxSize < int (length remaining)"
  from findCut_bounds [OF assms gt]
  have b: "0 \<le> findCut remaining maxSize" "findCut remaining maxSize \<le> int (length remaining)"
    by simp_all
  show "chunkLoop remaining maxSize chunks =
        chunkLoop (trim (substringFrom remaining (findCut remaining maxSize))) maxSize
          (chunks @ [trim (substring remaining 0 (findCut remaining maxSize))])"
    using chunkLoop_step [OF assms gt] by (simp add: substring_take [OF b] substringFrom_drop [OF b])
  show "length (trim (substringFrom remaining (findCut remaining maxSize))) < length remaining"
    using step_shrinks [OF assms gt] by (simp add: substringFrom_drop [OF b])
qed

theorem chunkText_terminates_witness:
  "(1::int) \<le> 12 \<and> (\<exists>chunks. chunkText sampleText 12 = Some chunks) \<and>
   0 < length (js ''ok now'') \<and> int (length (js ''ok now'')) \<le> 12 \<and>
   chunkLoop (js ''ok now'') 12 [] = Some [js ''ok now''] \<and>
   12 < int (length (trim sampleText)) \<and>
   length (trim (substringFrom (trim sampleText) (findCut (trim sampleText) 12)))
     < length (trim sampleText)"
proof -
  have h: "0 < length (js ''ok now'') \<and> int (length (js ''ok now'')) \<le> 12"
    "12 < int (length (trim sampleText))" by code_simp+
  with chunkText_terminates [of 12 sampleText] show ?thesis by simp
qed

lemma findCut_cases:
  assumes "1 \<le> maxSize" and "maxSize < int (length remaining)"
  shows "((\<exists>j. int j \<le> maxSize \<and> enderAt remaining j) \<longrightarrow>
            (\<exists>i. int i \<le> maxSize \<and> enderAt remaining i \<and>
                 findCut remaining maxSize = int i + 2 \<and>
                 (\<forall>j. int j \<le> maxSize \<and> enderAt remaining j \<longrightarrow>
                      int j \<le> findCut remaining maxSize))) \<and>
         (\<not> (\<exists>j. int j \<le> maxSize \<and> enderAt remaining j) \<and>
          (\<exists>j. 1 \<le> j \<and> int j \<le> maxSize \<and> remaining ! j = 0x20) \<longrightarrow>
            1 \<le> findCut remaining maxSize \<and> findCut remaining maxSize \<le> maxSize \<and>
            remaining ! nat (findCut remaining maxSize) = 0x20 \<and>
            (\<forall>j. int j \<le> maxSize \<and> remaining ! j = 0x20 \<longrightarrow>
                 int j \<le> findCut remaining maxSize)) \<and>
         (\<not> (\<exists>j. int j \<le> maxSize \<and> enderAt remaining j) \<and>
          \<not> (\<exists>j. 1 \<le> j \<and> int j \<le> maxSize \<and> remaining ! j = 0x20) \<longrightarrow>
            findCut remaining maxSize = maxSize) \<and>
         chunkLoop remaining maxSize chunks =
           chunkLoop (trim (substringFrom remaining (findCut remaining maxSize))) maxSize
             (chunks @ [trim (substring remaining 0 (findCut remaining maxSize))])"
proof -
  have in_range: "j < length remaining" if "int j \<le> maxSize" for j
    using that assms(2) by simp
  have A: "(\<exists>j. int j \<le> maxSize \<and> enderAt remaining j) \<longrightarrow>
            (\<exists>i. int i \<le> maxSize \<and> enderAt remaining i \<and>
                 findCut remaining maxSize = int i + 2 \<and>
                 (\<forall>j. int j \<le> maxSize \<and> enderAt remaining j \<longrightarrow>
                      int j \<le> findCut remaining maxSize))"
    using findCut_ender [OF assms(1)] by blast
  have B: "\<not> (\<exists>j. int j \<le> maxSize \<and> enderAt remaining j) \<and>
          (\<exists>j. 1 \<le> j \<and> int j \<le> maxSize \<and> remaining ! j = 0x20) \<longrightarrow>
            1 \<le> findCut remaining maxSize \<and> findCut remaining maxSize \<le> maxSize \<and>
            remaining ! nat (findCut remaining maxSize) = 0x20 \<and>
            (\<forall>j. int j \<le> maxSize \<and> remaining ! j = 0x20 \<longrightarrow>
                 int j \<le> findCut remaining maxSize)"
  proof (intro impI, elim conjE exE)
    fix j
    assume no: "\<not> (\<exists>j. int j \<le> maxSize \<and> enderAt remaining j)"
      and sp: "1 \<le> j" "int j \<le> maxSize" "remaining ! j = 0x20"
    from findCut_space [OF assms(1) no sp(1,2) in_range [OF sp(2)] sp(3)] in_range
    show "1 \<le> findCut remaining maxSize \<and> findCut remaining maxSize \<le> maxSize \<and>
          remaining ! nat (findCut remaining maxSize) = 0x20 \<and>
          (\<forall>j. int j \<le> maxSize \<and> remaining ! j = 0x20 \<longrightarrow>
               int j \<le> findCut remaining maxSize)" by blast
  qed
  have C: "\<not> (\<exists>j. int j \<le> maxSize \<and> enderAt remaining j) \<and>
          \<not> (\<exists>j. 1 \<le> j \<and> int j \<le> maxSize \<and> remaining ! j = 0x20) \<longrightarrow>
            findCut remaining maxSize = maxSize"
    using findCut_hard [OF assms(1), of remaining] by blast
  from findCut_bounds [OF assms]
  have b: "0 \<le> findCut remaining maxSize" "findCut remaining maxSize \<le> int (length remaining)"
    by simp_all
  have D: "chunkLoop remaining maxSize chunks =
           chunkLoop (trim (substringFrom remaining (findCut remaining maxSize))) maxSize
             (chunks @ [trim (substring remaining 0 (findCut remaining maxSize))])"
    using chunkLoop_step [OF assms] by (simp add: substring_take [OF b] substringFrom_drop [OF b])
  from A B C D show ?thesis by blast
qed

text \<open>
  Claim C4, as the code has it. When the remainder is longer than \<open>maxSize \<ge> 1\<close> and no
  ender starts exactly at index \<open>maxSize\<close>: if one of the six two-character enders (period,
  exclamation mark or question mark followed by a space or a line feed) starts at an index
  below \<open>maxSize\<close>, the cut is right after such an occurrence, and no such occurrence starts
  beyond the cut; if there is none but a space U+0020 at an index from 1 to \<open>maxSize\<close>, the
  cut is at the last such space; otherwise the cut is at \<open>maxSize\<close>. The loop goes on with
  the two trimmed parts.
\<close>

theorem findCut_boundary:
  assumes "1 \<le> maxSize" and "maxSize < int (length remaining)"
    and "\<not> enderAt remaining (nat maxSize)"
  shows "((\<exists>j. int j < maxSize \<and> enderAt remaining j) \<longrightarrow>
            (\<exists>i. int i < maxSize \<and> enderAt remaining i \<and>
                 findCut remaining maxSize = int i + 2 \<and>
                 (\<forall>j. int j < maxSize \<and> enderAt remaining j \<longrightarrow>
                      int j \<le> findCut remaining maxSize))) \<and>
         (\<not> (\<exists>j. int j < maxSize \<and> enderAt remaining j) \<and>
          (\<exists>j. 1 \<le> j \<and> int j \<le> maxSize \<and> remaining ! j = 0x20) \<longrightarrow>
            1 \<le> findCut remaining maxSize \<and> findCut remaining maxSize \<le> maxSize \<and>
            remaining ! nat (findCut remaining maxSize) = 0x20 \<and>
            (\<forall>j. int j \<le> maxSize \<and> remaining ! j = 0x20 \<longrightarrow>
                 int j \<le> findCut remaining maxSize)) \<and>
         (\<not> (\<exists>j. int j < maxSize \<and> enderAt remaining j) \<and>
          \<not> (\<exists>j. 1 \<le> j \<and> int j \<le> maxSize \<and> remaining ! j = 0x20) \<longrightarrow>
            findCut remaining maxSize = maxSize) \<and>
         chunkLoop remaining maxSize chunks =
           chunkLoop (trim (substringFrom remaining (findCut remaining maxSize))) maxSize
             (chunks @ [trim (substring remaining 0 (findCut remaining maxSize))])"
proof -
  have w: "(int j \<le> maxSize \<and> enderAt remaining j) \<longleftrightarrow> (int j < maxSize \<and> enderAt remaining j)"
    for j
  proof (cases "int j = maxSize")
    case True
    then have "j = nat maxSize" by simp
    with assms(3) show ?thesis by simp
  next
    case False
    then show ?thesis by auto
  qed
  have w2: "(int j \<le> maxSize \<and> enderAt remaining j \<and> P) \<longleftrightarrow>
            (int j < maxSize \<and> enderAt remaining j \<and> P)" for j P
    using w [of j] by blast
  from findCut_cases [OF assms(1,2), of chunks] show ?thesis
    unfolding w w2 .
qed

theorem findCut_boundary_witness:
  "(1::int) \<le> 8 \<and> 8 < int (length boundaryText) \<and> \<not> enderAt boundaryText (nat 8) \<and>
   enderAt boundaryText 2 \<and> enderAt boundaryText 6 \<and> findCut boundaryText 8 = 8 \<and>
   (\<exists>i. int i < 8 \<and> enderAt boundaryText i \<and> findCut boundaryText 8 = int i + 2 \<and>
        (\<forall>j. int j < 8 \<and> enderAt boundaryText j \<longrightarrow> int j \<le> findCut boundaryText 8))"
proof -
  have h: "(1::int) \<le> 8" "8 < int (length boundaryText)" by code_simp+
  have e: "enderAt boundaryText 2" "enderAt boundaryText 6" "findCut boundaryText 8 = 8"
    by code_simp+
  have n: "\<not> enderAt boundaryText (nat 8)" by code_simp
  have "int 6 < 8 \<and> enderAt boundaryText 6" using e by simp
  then have "\<exists>j. int j < 8 \<and> enderAt boundaryText j" by blast
  with findCut_boundary [OF h n, of "[]"] h e n show ?thesis by simp
qed

text \<open>
  Claim C4 as stated fails: with a period at index 2 and a line feed at index 4, both inside
  the window of 6, the code cuts at neither but at \<open>maxSize\<close>: a period that is not followed
  by a space or line feed is no sentence ender for the code, and a line feed is no word
  boundary.
\<close>

theorem chunkText_newline_counterexample:
  "6 < int (length newlineText) \<and> newlineText ! 2 = 0x2E \<and> isWhiteSpace (newlineText ! 4) \<and>
   findCut newlineText 6 = 6 \<and>
   chunkText newlineText 6 = Some [js ''ab.c'' @ [0xA] @ js ''d'', js ''efgh'']"
  by code_simp

text \<open>
  Claim C3 fails on the code: for 200 letters followed by a period, a space and a letter,
  and \<open>maxSize = 200\<close>, the first chunk has 201 code units. \<open>lastIndexOf(ender, maxSize)\<close>
  accepts an ender that starts at index \<open>maxSize\<close>, and the cut falls behind it.
\<close>

theorem chunkText_exceeds_maxSize:
  "chunkText (replicate 200 0x61 @ [0x2E, 0x20, 0x62]) 200 =
     Some [replicate 200 0x61 @ [0x2E], [0x62]] \<and>
   length (replicate 200 0x61 @ [0x2E] :: jsstring) = 201"
  using long_sentence_chunks [of 200] by simp

text \<open>
  Two enders back to back: the scan compares the index of the later ender with the end of
  the earlier one, and the cut stays after the earlier ender.
\<close>

lemma adjacent_enders_cut:
  "enderAt (js ''a. ! cdefghijk'') 1 \<and> enderAt (js ''a. ! cdefghijk'') 3 \<and>
   findCut (js ''a. ! cdefghijk'') 10 = 3"
  by code_simp

section \<open>The claims about the export pipeline\<close>

text \<open>
  Claim C2 fails on the code. The text of 203 code units is cut by \<open>chunkText\<close> after
  200 code units, inside a surrogate pair. For that chunk \<open>encodeURIComponent\<close> throws in
  every \<open>try\<close> block and once more in the fallback: whatever the transport does, no
  request is made, no window is opened, and the promise is rejected with \<open>URIError\<close>.
\<close>

theorem lone_surrogate_rejects:
  "chunkText emojiText (CHUNK_SIZE CONFIG) = Some [emojiChunk, [0xDE00, 0xD83D, 0xDE00]] \<and>
   (\<forall>tp. fetchAudioWithRetry CONFIG tp emojiChunk (js ''en'') 1 0 [] = (Inl URIError, [Delay 1000]))"
proof -
  have l: "encodeURIComponent (js ''en'') = Inr (js ''en'')" by code_simp
  from emoji_chunk_lone have "googleUrl CONFIG emojiChunk (js ''en'') = Inl URIError"
    by (simp add: googleUrl_lone_lead [OF _ _ l])
  from uri_error_ladder [OF this, of 0 _ 1 "[]"]
  have "fetchAudioWithRetry CONFIG tp emojiChunk (js ''en'') 1 0 [] = (Inl URIError, [Delay 1000])"
    for tp by (simp add: CONFIG_simps)
  then show ?thesis by (simp add: emoji_chunks CONFIG_simps)
qed

text \<open>
  Claim C5 fails on the code, for the same text: the ladder of the first chunk is exhausted
  without a request, the target URL is never opened, and the export ends with the error
  notification for long texts only.
\<close>

theorem lone_surrogate_export:
  "\<forall>tp. handleLongExport CONFIG tp emojiText (js ''en-US'') (js ''mp3'') [] =
     Some [UpdateStatus ProcessingLong True, UpdateStatus (ProcessingChunk 1 2) True, Delay 1000,
           UpdateStatus StatusError False, UpdateStatus StatusError False, Notify LongFailed]"
proof
  fix tp
  let ?chunks = "[emojiChunk, [0xDE00, 0xD83D, 0xDE00]]"
  let ?sl = "shortLangOf (js ''en-US'')"
  let ?tr1 = "[UpdateStatus ProcessingLong True] @ [UpdateStatus (ProcessingChunk (0 + 1) (length ?chunks)) True]"
  have l: "encodeURIComponent ?sl = Inr (js ''en'')" by code_simp
  from emoji_chunk_lone have "googleUrl CONFIG emojiChunk ?sl = Inl URIError"
    by (simp add: googleUrl_lone_lead [OF _ _ l])
  from uri_error_ladder [OF this, of 0 tp 1 ?tr1]
  have f: "fetchAudioWithRetry CONFIG tp (?chunks ! 0) ?sl 1 0 ?tr1 = (Inl URIError, ?tr1 @ [Delay 1000])"
    by (simp add: CONFIG_simps)
  have "trimmed emojiChunk" by (simp add: trimmed_def emojiChunk_def isWhiteSpace_def)
  then have "trim emojiChunk = emojiChunk" by (rule trim_id)
  with emoji_chunk_lone have nb: "trim (?chunks ! 0) \<noteq> []" by simp
  have "exportLoop CONFIG tp ?chunks ?sl 0 [] [UpdateStatus ProcessingLong True]
          = (Inl URIError, ?tr1 @ [Delay 1000])"
    using export_fetch [OF _ nb f, of "[]"] by simp
  then show "handleLongExport CONFIG tp emojiText (js ''en-US'') (js ''mp3'') [] =
     Some [UpdateStatus ProcessingLong True, UpdateStatus (ProcessingChunk 1 2) True, Delay 1000,
           UpdateStatus StatusError False, UpdateStatus StatusError False, Notify LongFailed]"
    by (simp add: handleLongExport_def emoji_chunks CONFIG_simps showError_def)
qed

text \<open>
  Claim C8, as the code has it. A network error, a fetch still pending when the timer fires
  after 10 seconds, a status outside 200 to 299 and an empty body all end the attempt with no
  blob after its one request. Every such attempt is followed by the same step: the next
  proxy, or the first proxy with the next attempt number after the retry delay, or the
  fallback. So when every reply is a failure of one of these kinds, in any mixture, the run
  is the whole fixed ladder followed by the fallback, and two networks that differ only in
  the kind of failure give the same result and the same trace.
\<close>

theorem failures_feed_ladder:
  assumes u: "requestUrl cfg chunk lang p = Some u" and g: "googleUrl cfg chunk lang = Inr g"
  shows
   "(\<forall>ms. net tr u = Rejects ms \<longrightarrow>
       tryFetch cfg (awaitFetch net) chunk lang p tr = (None, tr @ [Fetch u])) \<and>
    (\<forall>ms status bodyMs body.
       net tr u = Resolves ms status bodyMs body \<and>
       (10000 \<le> ms \<or> \<not> (200 \<le> status \<and> status \<le> 299) \<or> body = Some []) \<longrightarrow>
       tryFetch cfg (awaitFetch net) chunk lang p tr = (None, tr @ [Fetch u])) \<and>
    (tryFetch cfg (awaitFetch net) chunk lang p tr = (None, tr @ [Fetch u]) \<longrightarrow>
       fetchAudioWithRetry cfg (awaitFetch net) chunk lang a p tr =
         (if p + 1 < length (PROXY_URLS cfg)
          then fetchAudioWithRetry cfg (awaitFetch net) chunk lang a (p + 1) (tr @ [Fetch u])
          else if a < RETRY_ATTEMPTS cfg
          then fetchAudioWithRetry cfg (awaitFetch net) chunk lang (a + 1) 0
                 (tr @ [Fetch u, Delay (RETRY_DELAY cfg)])
          else (Inr None, tr @ [Fetch u, WindowOpen g] @ showError ManualFallback))) \<and>
    (\<forall>eg. encodeURIComponent g = Inr eg \<and> p < length (PROXY_URLS cfg) \<and>
          (\<forall>tr' u'. failedReply (net tr' u')) \<longrightarrow>
       fetchAudioWithRetry cfg (awaitFetch net) chunk lang a p tr =
         (Inr None, tr @ ladderEvents cfg eg a p @ [WindowOpen g] @ showError ManualFallback)) \<and>
    (\<forall>net2. (\<forall>tr' u'. net tr' u' = net2 tr' u' \<or>
                      (failedReply (net tr' u') \<and> failedReply (net2 tr' u'))) \<longrightarrow>
       fetchAudioWithRetry cfg (awaitFetch net) chunk lang a p tr =
         fetchAudioWithRetry cfg (awaitFetch net2) chunk lang a p tr)"
proof (intro conjI allI impI)
  fix ms
  assume "net tr u = Rejects ms"
  then show "tryFetch cfg (awaitFetch net) chunk lang p tr = (None, tr @ [Fetch u])"
    using u by (simp add: tryFetch_eq awaitFetch_rejects)
next
  fix ms status bodyMs body
  assume "net tr u = Resolves ms status bodyMs body \<and>
       (10000 \<le> ms \<or> \<not> (200 \<le> status \<and> status \<le> 299) \<or> body = Some [])"
  then have "succeeded (awaitFetch net tr u) = None"
    using awaitFetch_resolves_failed [of net tr u ms status bodyMs body] by blast
  then show "tryFetch cfg (awaitFetch net) chunk lang p tr = (None, tr @ [Fetch u])"
    using u by (simp add: tryFetch_eq)
next
  assume att: "tryFetch cfg (awaitFetch net) chunk lang p tr = (None, tr @ [Fetch u])"
  from failed_attempt_step [OF att g, of a]
  show "fetchAudioWithRetry cfg (awaitFetch net) chunk lang a p tr =
         (if p + 1 < length (PROXY_URLS cfg)
          then fetchAudioWithRetry cfg (awaitFetch net) chunk lang a (p + 1) (tr @ [Fetch u])
          else if a < RETRY_ATTEMPTS cfg
          then fetchAudioWithRetry cfg (awaitFetch net) chunk lang (a + 1) 0
                 (tr @ [Fetch u, Delay (RETRY_DELAY cfg)])
          else (Inr None, tr @ [Fetch u, WindowOpen g] @ showError ManualFallback))"
    by simp
next
  fix eg
  assume h: "encodeURIComponent g = Inr eg \<and> p < length (PROXY_URLS cfg) \<and>
          (\<forall>tr' u'. failedReply (net tr' u'))"
  then have eg: "encodeURIComponent g = Inr eg" and p: "p < length (PROXY_URLS cfg)"
    and f: "\<forall>tr' u'. succeeded (awaitFetch net tr' u') = None"
    by (simp_all add: awaitFetch_failed)
  show "fetchAudioWithRetry cfg (awaitFetch net) chunk lang a p tr =
         (Inr None, tr @ ladderEvents cfg eg a p @ [WindowOpen g] @ showError ManualFallback)"
    by (rule all_fail_ladder [OF g eg f p])
next
  fix net2
  assume h: "\<forall>tr' u'. net tr' u' = net2 tr' u' \<or>
                      (failedReply (net tr' u') \<and> failedReply (net2 tr' u'))"
  have "succeeded (awaitFetch net tr' u') = succeeded (awaitFetch net2 tr' u')" for tr' u'
  proof -
    from h have "net tr' u' = net2 tr' u' \<or>
                 (failedReply (net tr' u') \<and> failedReply (net2 tr' u'))" by blast
    then show ?thesis
    proof
      assume "net tr' u' = net2 tr' u'"
      then show ?thesis by (simp add: awaitFetch_def)
    next
      assume "failedReply (net tr' u') \<and> failedReply (net2 tr' u')"
      then show ?thesis by (simp add: awaitFetch_failed)
    qed
  qed
  then show "fetchAudioWithRetry cfg (awaitFetch net) chunk lang a p tr =
         fetchAudioWithRetry cfg (awaitFetch net2) chunk lang a p tr"
    by (intro transport_alike) simp
qed

theorem failures_feed_ladder_witness:
  "requestUrl CONFIG (js ''Hi'') (js ''en'') 0 =
     Some (js ''https://api.allorigins.win/raw?url='' @ hiEncoded) \<and>
   googleUrl CONFIG (js ''Hi'') (js ''en'') = Inr hiTarget \<and>
   netMixed [] (js ''https://api.allorigins.win/raw?url='' @ hiEncoded)
     = Resolves 120 503 40 (Some [1]) \<and>
   tryFetch CONFIG (awaitFetch netMixed) (js ''Hi'') (js ''en'') 0 [] =
     (None, [Fetch (js ''https://api.allorigins.win/raw?url='' @ hiEncoded)]) \<and>
   fetchAudioWithRetry CONFIG (awaitFetch netMixed) (js ''Hi'') (js ''en'') 1 0 [] =
     (Inr None,
      [Fetch (js ''https://api.allorigins.win/raw?url='' @ hiEncoded),
       Fetch (js ''https://corsproxy.io/?'' @ hiEncoded),
       Fetch (js ''https://api.codetabs.com/v1/proxy?quest='' @ hiEncoded),
       Delay 1000,
       Fetch (js ''https://api.allorigins.win/raw?url='' @ hiEncoded),
       Fetch (js ''https://corsproxy.io/?'' @ hiEncoded),
       Fetch (js ''https://api.codetabs.com/v1/proxy?quest='' @ hiEncoded),
       WindowOpen hiTarget, UpdateStatus StatusError False, Notify ManualFallback])"
proof -
  let ?u = "js ''https://api.allorigins.win/raw?url='' @ hiEncoded"
  note T = failures_feed_ladder [OF hi_request hi_target, of netMixed "[]" 1]
  have r: "netMixed [] ?u = Resolves 120 503 40 (Some [1])"
    by (simp add: netMixed_def)
  have k: "(0::nat) < length (PROXY_URLS CONFIG)" by (simp add: CONFIG_simps)
  have f: "\<forall>tr' u'. failedReply (netMixed tr' u')" by (simp add: netMixed_def Let_def)
  have a: "tryFetch CONFIG (awaitFetch netMixed) (js ''Hi'') (js ''en'') 0 [] =
     (None, [] @ [Fetch ?u])"
    using T [THEN conjunct2, THEN conjunct1, rule_format, of 120 503 40 "Some [1]"] r by simp
  have "fetchAudioWithRetry CONFIG (awaitFetch netMixed) (js ''Hi'') (js ''en'') 1 0 [] =
     (Inr None, [] @ ladderEvents CONFIG hiEncoded 1 0 @ [WindowOpen hiTarget]
                   @ showError ManualFallback)"
    using T [THEN conjunct2, THEN conjunct2, THEN conjunct2, THEN conjunct1, rule_format,
             of hiEncoded] hi_encoded k f by simp
  with a r show ?thesis by (simp add: hi_request hi_target hi_ladder showError_def)
qed

text \<open>
  Claim C8 as stated fails: a request whose response arrives after 100 milliseconds and
  whose body takes 60 seconds to read exceeds 10 seconds and is accepted, because the timer
  is cleared before the body is read.
\<close>

theorem slow_body_accepted:
  "netSlowBody [] (js ''https://api.allorigins.win/raw?url='' @ hiEncoded)
     = Resolves 100 200 60000 (Some [1, 2, 3]) \<and>
   (10000::nat) < 100 + 60000 \<and>
   tryFetch CONFIG (awaitFetch netSlowBody) (js ''Hi'') (js ''en'') 0 [] =
     (Some [1, 2, 3], [Fetch (js ''https://api.allorigins.win/raw?url='' @ hiEncoded)]) \<and>
   fetchAudioWithRetry CONFIG (awaitFetch netSlowBody) (js ''Hi'') (js ''en'') 1 0 [] =
     (Inr (Some [1, 2, 3]), [Fetch (js ''https://api.allorigins.win/raw?url='' @ hiEncoded)])"
proof -
  let ?u = "js ''https://api.allorigins.win/raw?url='' @ hiEncoded"
  have a: "tryFetch CONFIG (awaitFetch netSlowBody) (js ''Hi'') (js ''en'') 0 [] =
     (Some [1, 2, 3], [Fetch ?u])"
    by (simp add: tryFetch_eq hi_request awaitFetch_def netSlowBody_def)
  from fetch_success [OF a, of 1] a show ?thesis by (simp add: netSlowBody_def)
qed

lemma ladder_transitions:
  "(\<forall>tr1. tryFetch cfg tp chunk lang p tr = (None, tr1) \<and> p + 1 < length (PROXY_URLS cfg) \<longrightarrow>
      fetchAudioWithRetry cfg tp chunk lang a p tr =
        fetchAudioWithRetry cfg tp chunk lang a (p + 1) tr1) \<and>
   (\<forall>tr1. tryFetch cfg tp chunk lang p tr = (None, tr1) \<and> \<not> p + 1 < length (PROXY_URLS cfg) \<and>
          a < RETRY_ATTEMPTS cfg \<longrightarrow>
      fetchAudioWithRetry cfg tp chunk lang a p tr =
        fetchAudioWithRetry cfg tp chunk lang (a + 1) 0 (tr1 @ [Delay (RETRY_DELAY cfg)])) \<and>
   (\<forall>b tr1. tryFetch cfg tp chunk lang p tr = (Some b, tr1) \<longrightarrow>
      fetchAudioWithRetry cfg tp chunk lang a p tr = (Inr (Some b), tr1)) \<and>
   (\<forall>g eg j b.
      googleUrl cfg chunk lang = Inr g \<and> encodeURIComponent g = Inr eg \<and>
      p < length (PROXY_URLS cfg) \<and> j < length (fetchUrls (ladderEvents cfg eg a p)) \<and>
      (\<forall>tr' u. length (fetchUrls tr') < length (fetchUrls tr) + j \<longrightarrow> failed (tp tr' u)) \<and>
      (\<forall>tr' u. length (fetchUrls tr') = length (fetchUrls tr) + j \<longrightarrow>
                succeeded (tp tr' u) = Some b) \<longrightarrow>
      fetchAudioWithRetry cfg tp chunk lang a p tr =
        (Inr (Some b), tr @ uptoFetch (Suc j) (ladderEvents cfg eg a p))) \<and>
   (\<forall>chunks i blobs b tr2.
      i < length chunks \<and> trim (chunks ! i) \<noteq> [] \<and>
      fetchAudioWithRetry cfg tp (chunks ! i) lang 1 0
        (tr @ [UpdateStatus (ProcessingChunk (i + 1) (length chunks)) True]) = (Inr (Some b), tr2) \<longrightarrow>
      exportLoop cfg tp chunks lang i blobs tr =
        exportLoop cfg tp chunks lang (i + 1) (blobs @ [b])
          (if i < length chunks - 1 then tr2 @ [Delay 500] else tr2))"
proof (intro conjI allI impI)
  fix tr1
  assume "tryFetch cfg tp chunk lang p tr = (None, tr1) \<and> p + 1 < length (PROXY_URLS cfg)"
  then show "fetchAudioWithRetry cfg tp chunk lang a p tr =
        fetchAudioWithRetry cfg tp chunk lang a (p + 1) tr1"
    by (simp add: fetch_next)
next
  fix tr1
  assume "tryFetch cfg tp chunk lang p tr = (None, tr1) \<and> \<not> p + 1 < length (PROXY_URLS cfg) \<and>
          a < RETRY_ATTEMPTS cfg"
  then show "fetchAudioWithRetry cfg tp chunk lang a p tr =
        fetchAudioWithRetry cfg tp chunk lang (a + 1) 0 (tr1 @ [Delay (RETRY_DELAY cfg)])"
    by (simp add: fetch_retry)
next
  fix b tr1
  assume "tryFetch cfg tp chunk lang p tr = (Some b, tr1)"
  then show "fetchAudioWithRetry cfg tp chunk lang a p tr = (Inr (Some b), tr1)"
    by (rule fetch_success)
next
  fix g eg j b
  assume h: "googleUrl cfg chunk lang = Inr g \<and> encodeURIComponent g = Inr eg \<and>
      p < length (PROXY_URLS cfg) \<and> j < length (fetchUrls (ladderEvents cfg eg a p)) \<and>
      (\<forall>tr' u. length (fetchUrls tr') < length (fetchUrls tr) + j \<longrightarrow> failed (tp tr' u)) \<and>
      (\<forall>tr' u. length (fetchUrls tr') = length (fetchUrls tr) + j \<longrightarrow>
                succeeded (tp tr' u) = Some b)"
  then have f: "\<forall>tr' u. length (fetchUrls tr') < length (fetchUrls tr) + j \<longrightarrow>
      succeeded (tp tr' u) = None"
    by (simp add: failed_iff)
  from h have g: "googleUrl cfg chunk lang = Inr g" and eg: "encodeURIComponent g = Inr eg"
    and p: "p < length (PROXY_URLS cfg)" and j: "j < length (fetchUrls (ladderEvents cfg eg a p))"
    and s: "\<forall>tr' u. length (fetchUrls tr') = length (fetchUrls tr) + j \<longrightarrow>
                succeeded (tp tr' u) = Some b"
    by blast+
  show "fetchAudioWithRetry cfg tp chunk lang a p tr =
        (Inr (Some b), tr @ uptoFetch (Suc j) (ladderEvents cfg eg a p))"
    by (rule first_success_ladder [OF g eg p j f s])
next
  fix chunks i blobs b tr2
  assume h: "i < length chunks \<and> trim (chunks ! i) \<noteq> [] \<and>
      fetchAudioWithRetry cfg tp (chunks ! i) lang 1 0
        (tr @ [UpdateStatus (ProcessingChunk (i + 1) (length chunks)) True]) = (Inr (Some b), tr2)"
  then show "exportLoop cfg tp chunks lang i blobs tr =
        exportLoop cfg tp chunks lang (i + 1) (blobs @ [b])
          (if i < length chunks - 1 then tr2 @ [Delay 500] else tr2)"
    using export_fetch [of i chunks cfg tp lang tr "Inr (Some b)" tr2 blobs] by simp
qed

text \<open>
  Claim C6. After a failed attempt the ladder goes on with the next proxy and the same
  attempt number while a proxy is left, otherwise with the first proxy and the next attempt
  number (after the retry delay) while the attempt number is below the budget; a successful
  attempt ends it. So an attempt that fails followed by a successful attempt on the next
  proxy makes exactly two requests, to these two proxies in order; more generally, when the
  first \<open>j\<close> requests of a run fail and the next one succeeds, the run makes exactly the
  first \<open>j + 1\<close> requests of the fixed ladder and returns the blob; and
  \<open>handleLongExport\<close> then goes on with the next chunk.
\<close>

theorem ladder_order:
  "(\<forall>tr1 b tr2.
      tryFetch cfg tp chunk lang p tr = (None, tr1) \<and>
      tryFetch cfg tp chunk lang (p + 1) tr1 = (Some b, tr2) \<and>
      p + 1 < length (PROXY_URLS cfg) \<longrightarrow>
      fetchAudioWithRetry cfg tp chunk lang a p tr = (Inr (Some b), tr2) \<and>
      (\<exists>u1 u2. requestUrl cfg chunk lang p = Some u1 \<and>
               requestUrl cfg chunk lang (p + 1) = Some u2 \<and>
               tr2 = tr @ [Fetch u1, Fetch u2])) \<and>
   (\<forall>tr1. tryFetch cfg tp chunk lang p tr = (None, tr1) \<and> p + 1 < length (PROXY_URLS cfg) \<longrightarrow>
      fetchAudioWithRetry cfg tp chunk lang a p tr =
        fetchAudioWithRetry cfg tp chunk lang a (p + 1) tr1) \<and>
   (\<forall>tr1. tryFetch cfg tp chunk lang p tr = (None, tr1) \<and> \<not> p + 1 < length (PROXY_URLS cfg) \<and>
          a < RETRY_ATTEMPTS cfg \<longrightarrow>
      fetchAudioWithRetry cfg tp chunk lang a p tr =
        fetchAudioWithRetry cfg tp chunk lang (a + 1) 0 (tr1 @ [Delay (RETRY_DELAY cfg)])) \<and>
   (\<forall>b tr1. tryFetch cfg tp chunk lang p tr = (Some b, tr1) \<longrightarrow>
      fetchAudioWithRetry cfg tp chunk lang a p tr = (Inr (Some b), tr1)) \<and>
   (\<forall>g eg j b.
      googleUrl cfg chunk lang = Inr g \<and> encodeURIComponent g = Inr eg \<and>
      p < length (PROXY_URLS cfg) \<and> j < length (fetchUrls (ladderEvents cfg eg a p)) \<and>
      (\<forall>tr' u. length (fetchUrls tr') < length (fetchUrls tr) + j \<longrightarrow> failed (tp tr' u)) \<and>
      (\<forall>tr' u. length (fetchUrls tr') = length (fetchUrls tr) + j \<longrightarrow>
                succeeded (tp tr' u) = Some b) \<longrightarrow>
      fetchAudioWithRetry cfg tp chunk lang a p tr =
        (Inr (Some b), tr @ uptoFetch (Suc j) (ladderEvents cfg eg a p))) \<and>
   (\<forall>chunks i blobs b tr2.
      i < length chunks \<and> trim (chunks ! i) \<noteq> [] \<and>
      fetchAudioWithRetry cfg tp (chunks ! i) lang 1 0
        (tr @ [UpdateStatus (ProcessingChunk (i + 1) (length chunks)) True]) = (Inr (Some b), tr2) \<longrightarrow>
      exportLoop cfg tp chunks lang i blobs tr =
        exportLoop cfg tp chunks lang (i + 1) (blobs @ [b])
          (if i < length chunks - 1 then tr2 @ [Delay 500] else tr2))"
proof (rule conjI)
  show "(\<forall>tr1 b tr2.
          tryFetch cfg tp chunk lang p tr = (None, tr1) \<and>
          tryFetch cfg tp chunk lang (p + 1) tr1 = (Some b, tr2) \<and>
          p + 1 < length (PROXY_URLS cfg) \<longrightarrow>
          fetchAudioWithRetry cfg tp chunk lang a p tr = (Inr (Some b), tr2) \<and>
          (\<exists>u1 u2. requestUrl cfg chunk lang p = Some u1 \<and>
                   requestUrl cfg chunk lang (p + 1) = Some u2 \<and>
                   tr2 = tr @ [Fetch u1, Fetch u2]))"
    using second_attempt_succeeds [of cfg tp chunk lang p tr] by blast
qed (rule ladder_transitions)

theorem ladder_order_witness:
  "googleUrl CONFIG (js ''Hi'') (js ''en'') =
     Inr (js ''https://translate.google.com/translate_tts?ie=UTF-8&tl=en&client=tw-ob&q=Hi'') \<and>
   (0::nat) < length (PROXY_URLS CONFIG) \<and>
   failed (tpSecond [] []) \<and> succeeded (tpSecond [Fetch []] []) = Some [1, 2, 3] \<and>
   fetchAudioWithRetry CONFIG tpSecond (js ''Hi'') (js ''en'') 1 0 [] =
     (Inr (Some [1, 2, 3]),
      [Fetch (js ''https://api.allorigins.win/raw?url=https%3A%2F%2Ftranslate.google.com%2Ftranslate_tts%3Fie%3DUTF-8%26tl%3Den%26client%3Dtw-ob%26q%3DHi''),
       Fetch (js ''https://corsproxy.io/?https%3A%2F%2Ftranslate.google.com%2Ftranslate_tts%3Fie%3DUTF-8%26tl%3Den%26client%3Dtw-ob%26q%3DHi'')])"
proof -
  let ?g = "js ''https://translate.google.com/translate_tts?ie=UTF-8&tl=en&client=tw-ob&q=Hi''"
  let ?eg = "js ''https%3A%2F%2Ftranslate.google.com%2Ftranslate_tts%3Fie%3DUTF-8%26tl%3Den%26client%3Dtw-ob%26q%3DHi''"
  have g: "googleUrl CONFIG (js ''Hi'') (js ''en'') = Inr ?g" by code_simp
  have eg: "encodeURIComponent ?g = Inr ?eg" by code_simp
  have k: "(0::nat) < length (PROXY_URLS CONFIG)" by (simp add: CONFIG_simps)
  have j: "1 < length (fetchUrls (ladderEvents CONFIG ?eg 1 0))"
    by (simp add: ladder_count CONFIG_simps)
  have h1: "\<forall>tr' u. length (fetchUrls tr') < length (fetchUrls []) + 1 \<longrightarrow> failed (tpSecond tr' u)"
    by (simp add: tpSecond_def)
  have h2: "\<forall>tr' u. length (fetchUrls tr') = length (fetchUrls []) + 1 \<longrightarrow>
             succeeded (tpSecond tr' u) = Some [1, 2, 3]"
    by (simp add: tpSecond_def)
  have "fetchAudioWithRetry CONFIG tpSecond (js ''Hi'') (js ''en'') 1 0 [] =
        (Inr (Some [1, 2, 3]), [] @ uptoFetch (Suc 1) (ladderEvents CONFIG ?eg 1 0))"
    using ladder_order [of CONFIG tpSecond "js ''Hi''" "js ''en''" 0 "[]" 1] g eg k j h1 h2
    by blast
  moreover have "uptoFetch (Suc 1) (ladderEvents CONFIG ?eg 1 0) =
      [Fetch (js ''https://api.allorigins.win/raw?url='' @ ?eg),
       Fetch (js ''https://corsproxy.io/?'' @ ?eg)]"
    by (simp add: ladderEvents_def passEvents_def CONFIG_simps upt_conv_Cons currentProxy_def)
       (simp add: CONFIG_def)
  moreover have "js ''https://api.allorigins.win/raw?url='' @ ?eg = js ''https://api.allorigins.win/raw?url=https%3A%2F%2Ftranslate.google.com%2Ftranslate_tts%3Fie%3DUTF-8%26tl%3Den%26client%3Dtw-ob%26q%3DHi''"
    "js ''https://corsproxy.io/?'' @ ?eg = js ''https://corsproxy.io/?https%3A%2F%2Ftranslate.google.com%2Ftranslate_tts%3Fie%3DUTF-8%26tl%3Den%26client%3Dtw-ob%26q%3DHi''"
    by (simp_all add: js_def)
  moreover have "failed (tpSecond [] []) \<and> succeeded (tpSecond [Fetch []] []) = Some [1, 2, 3]"
    by (simp add: tpSecond_def)
  ultimately show ?thesis using g k by simp
qed

text \<open>
  Claim C7. If every successful answer to a request for a chunk carries the audio of that
  chunk, whichever proxy answers and at whichever attempt, then the file that
  \<open>handleLongExport\<close> saves is the audio of the chunks in chunk order, and it is saved
  whenever no error was notified.
\<close>

theorem export_order:
  assumes chunks: "chunkText source (CHUNK_SIZE cfg) = Some chunks"
    and audio: "\<forall>c \<in> set chunks. \<forall>q tr0 u b.
      requestUrl cfg c (shortLangOf lang) q = Some u \<and> succeeded (tp tr0 u) = Some b \<longrightarrow> b = audio c"
  shows "\<exists>tr'. handleLongExport cfg tp source lang format [] = Some tr' \<and>
           (saved tr' = [] \<or>
            saved tr' = [(concat (map audio [c \<leftarrow> chunks. trim c \<noteq> []]), format)]) \<and>
           (notices tr' = [] \<longrightarrow>
            saved tr' = [(concat (map audio [c \<leftarrow> chunks. trim c \<noteq> []]), format)])"
proof -
  obtain res pre0 where
    "exportLoop cfg tp chunks (shortLangOf lang) 0 [] [UpdateStatus ProcessingLong True] = (res, pre0)"
    by (cases "exportLoop cfg tp chunks (shortLangOf lang) 0 [] [UpdateStatus ProcessingLong True]")
  with chunks have "\<exists>tr'. handleLongExport cfg tp source lang format [] = Some tr'"
    by (cases res) (simp_all add: handleLongExport_def)
  then obtain tr' where run: "handleLongExport cfg tp source lang format [] = Some tr'" ..
  from long_export_shape [OF run chunks]
  consider (ok) pre bs where
      "tr' = pre @ [SaveFile (concat bs) format, UpdateStatus DownloadComplete False]"
      "exportLoop cfg tp chunks (shortLangOf lang) 0 [] ([] @ [UpdateStatus ProcessingLong True])
         = (Inr bs, pre)" "saved pre = saved []"
    | (err) pre where
      "tr' = pre @ [UpdateStatus StatusError False, UpdateStatus StatusError False, Notify LongFailed]"
      "saved pre = saved []"
    by blast
  then have "(saved tr' = [] \<or>
            saved tr' = [(concat (map audio [c \<leftarrow> chunks. trim c \<noteq> []]), format)]) \<and>
           (notices tr' = [] \<longrightarrow>
            saved tr' = [(concat (map audio [c \<leftarrow> chunks. trim c \<noteq> []]), format)])"
  proof cases
    case ok
    from export_audio [OF audio ok(2)] ok(1,3) show ?thesis by (simp add: saved_append)
  next
    case err
    then show ?thesis by (simp add: saved_append notices_append)
  qed
  with run show ?thesis by blast
qed

theorem export_order_witness:
  "chunkText (trim sampleText) (CHUNK_SIZE testConfig) =
     Some [js ''Hello world.'', js ''This is it!'', js ''ok now''] \<and>
   (\<exists>tr'. handleLongExport testConfig tpVaried (trim sampleText) (js ''en-US'') (js ''mp3'') []
            = Some tr' \<and>
          length (fetchUrls tr') = 5 \<and> notices tr' = [] \<and>
          saved tr' = [([0x2E, 0x21, 0x77], js ''mp3'')])"
proof -
  let ?cs = "[js ''Hello world.'', js ''This is it!'', js ''ok now'']"
  have c: "chunkText (trim sampleText) (CHUNK_SIZE testConfig) = Some ?cs" by code_simp
  have ends: "\<forall>c \<in> set ?cs. c \<noteq> [] \<and> isUnescaped (last c)" by code_simp
  have a: "\<forall>c \<in> set ?cs. \<forall>q tr0 u b.
      requestUrl testConfig c (shortLangOf (js ''en-US'')) q = Some u \<and>
      succeeded (tpVaried tr0 u) = Some b \<longrightarrow> b = lastUnit c"
  proof (intro ballI allI impI, elim conjE)
    fix c q tr0 u b
    assume "c \<in> set ?cs" and u: "requestUrl testConfig c (shortLangOf (js ''en-US'')) q = Some u"
      and b: "succeeded (tpVaried tr0 u) = Some b"
    with ends have "c \<noteq> []" "isUnescaped (last c)" by blast+
    from requestUrl_last [OF u this] have "last u = last c" .
    moreover from b have "b = [ucast (last u)]" by (auto simp: tpVaried_def split: if_splits)
    ultimately show "b = lastUnit c" by (simp add: lastUnit_def)
  qed
  have ev: "map_option (\<lambda>t. (length (fetchUrls t), notices t))
      (handleLongExport testConfig tpVaried (trim sampleText) (js ''en-US'') (js ''mp3'') [])
      = Some (5, [])" by code_simp
  have v: "concat (map lastUnit [c \<leftarrow> ?cs. trim c \<noteq> []]) = [0x2E, 0x21, 0x77]" by code_simp
  from export_order [OF c a, of "js ''mp3''"] ev v c a show ?thesis by auto
qed



end
